theory Spec2Isabelle
  imports Complex_Main
begin

section \<open>Amarillo's Outfit Manager: data model\<close>

text \<open>
  The add-on keeps its state in properties of the host scene and mutates the host's
  scene graph in place. The embedding makes that state explicit:
  \<^item> a host collection is a node of the containment tree; pointers to collections compare by
    identity, which is the number \<open>coll_id\<close>;
  \<^item> the view layer's visibility tree is a second tree whose nodes carry the identity of
    their collection, the \<open>exclude\<close> flag and the host's memory of whether the node was
    excluded before an ancestor was;
  \<^item> mesh objects are shared between overrides and mutated in place, so they live in a
    store indexed by object identity, and a pointer to an object is its identity;
  \<^item> a \<open>PointerProperty\<close> is an \<open>option\<close> (\<open>None\<close> is the unset pointer), a
    \<open>CollectionProperty\<close> is a list, an \<open>IntProperty\<close> is an \<open>int\<close>;
  \<^item> an assignment to an attribute of the host runs the host's setter: \<open>exclude\<close> is set
    recursively, a shape key's \<open>value\<close> is clamped to the key's slider range, and the
    \<open>value\<close> of an override, declared with \<open>min=0.0, max=1.0\<close>, is clamped to that range;
  \<^item> shape-key weights are only copied and compared with no arithmetic, so they are reals.
\<close>

type_synonym coll_id = nat
type_synonym object_id = nat

datatype collection = Collection (coll_id: coll_id) (children: "collection list")

datatype layer_collection =
  LayerCollection (lc_collection: coll_id) (exclude: bool) (previously_excluded: bool)
    (lc_children: "layer_collection list")

record key_block =
  kb_name :: string
  kb_value :: real
  kb_slider_min :: real
  kb_slider_max :: real

text \<open>
  A mesh object as far as the add-on reads it: \<open>ob_shape_keys\<close> is
  \<open>object.data.shape_keys\<close> (\<open>None\<close> when the mesh has no shape-key datablock, otherwise
  its \<open>key_blocks\<close>), \<open>ob_active_shape_key_index\<close> selects \<open>object.active_shape_key\<close>.
\<close>

record mesh_object =
  ob_shape_keys :: "key_block list option"
  ob_active_shape_key_index :: nat

record shape_key_entry =
  sk_name :: string
  sk_value :: real
  sk_model :: "object_id option"

record nested_collection_state =
  ns_collection :: "collection option"
  ns_was_excluded :: bool

record outfit_entry =
  o_name :: string
  o_collection :: "collection option"
  o_shape_keys :: "shape_key_entry list"
  o_active_shape_key_index :: int
  o_nested_states :: "nested_collection_state list"

record managed_model_entry =
  mm_name :: string
  mm_object :: "object_id option"

text \<open>
  The part of the host context the operators touch: the four scene properties registered by
  the add-on, the root of the view layer's tree, and the store of mesh objects.
\<close>

record scene =
  amarillo_outfits :: "outfit_entry list"
  amarillo_active_outfit_index :: int
  amarillo_managed_models :: "managed_model_entry list"
  amarillo_active_model_index :: int
  view_layer :: layer_collection
  objects :: "object_id \<Rightarrow> mesh_object"

datatype py_error = IndexError

datatype op_result = FINISHED | CANCELLED

type_synonym outcome = "py_error + (op_result \<times> scene)"

section \<open>Host collections\<close>

text \<open>
  Subscripting a property collection with an integer follows Python: a negative index
  counts from the end, anything else out of range raises \<open>IndexError\<close>. The result is the
  position of the element, which stands for the reference the source obtains.
\<close>

definition subscript :: "'a list \<Rightarrow> int \<Rightarrow> nat option" where
  "subscript xs i =
     (let n = int (length xs) in
      if 0 \<le> i \<and> i < n then Some (nat i)
      else if i < 0 \<and> 0 \<le> n + i then Some (nat (n + i))
      else None)"

text \<open>\<open>remove(index)\<close> of a property collection drops the element at an index in range and
  does nothing otherwise.\<close>

definition collection_remove :: "'a list \<Rightarrow> int \<Rightarrow> 'a list" where
  "collection_remove xs i =
     (if 0 \<le> i \<and> i < int (length xs) then take (nat i) xs @ drop (Suc (nat i)) xs else xs)"

section \<open>Helper methods of the activation operators\<close>

text \<open>
  \<open>AMARILLO_OT_quick_activate_outfit\<close> and \<open>AMARILLO_OT_activate_outfit\<close> each define the
  methods \<open>reset_outfit_shape_keys\<close>, \<open>find_layer_collection\<close>,
  \<open>get_all_nested_collections\<close>, \<open>store_nested_states\<close> and \<open>restore_nested_states\<close>; the
  two copies are the same text line by line, so one definition stands for both.
\<close>

fun find_layer_collection :: "layer_collection \<Rightarrow> coll_id \<Rightarrow> layer_collection option"
  and find_in_children :: "layer_collection list \<Rightarrow> coll_id \<Rightarrow> layer_collection option" where
  "find_layer_collection (LayerCollection k e p chs) c =
     (if k = c then Some (LayerCollection k e p chs) else find_in_children chs c)"
| "find_in_children [] c = None"
| "find_in_children (ch # chs) c =
     (case find_layer_collection ch c of
        Some found \<Rightarrow> Some found
      | None \<Rightarrow> find_in_children chs c)"

text \<open>
  The host's setter behind \<open>layer_coll.exclude = v\<close>. It stores \<open>v\<close> in the node and then
  passes over every node below it. When \<open>v\<close> is true the pass excludes each node and
  remembers in \<open>previously_excluded\<close> whether the node was excluded already; when \<open>v\<close> is
  false it un-excludes each node that is not remembered as excluded before. On the
  assigned node itself an exclusion clears the memory and an un-exclusion keeps it.
\<close>

fun flag_set_recursive :: "bool \<Rightarrow> layer_collection \<Rightarrow> layer_collection" where
  "flag_set_recursive v (LayerCollection k e p chs) =
     (if v then LayerCollection k True e (map (flag_set_recursive v) chs)
      else LayerCollection k (if p then e else False) p (map (flag_set_recursive v) chs))"

fun exclude_setter :: "bool \<Rightarrow> layer_collection \<Rightarrow> layer_collection" where
  "exclude_setter v (LayerCollection k e p chs) =
     LayerCollection k v (if v then False else p) (map (flag_set_recursive v) chs)"

text \<open>
  The source assigns \<open>exclude\<close> on the node that \<open>find_layer_collection\<close> returned, when it
  returned one. \<open>assign_exclude\<close> is that in-place assignment: it follows the same search
  and runs the setter on the first match, leaving the tree alone when there is none.
\<close>

fun assign_exclude :: "layer_collection \<Rightarrow> coll_id \<Rightarrow> bool \<Rightarrow> layer_collection"
  and assign_in_children :: "layer_collection list \<Rightarrow> coll_id \<Rightarrow> bool \<Rightarrow> layer_collection list" where
  "assign_exclude (LayerCollection k e p chs) c v =
     (if k = c then exclude_setter v (LayerCollection k e p chs)
      else LayerCollection k e p (assign_in_children chs c v))"
| "assign_in_children [] c v = []"
| "assign_in_children (ch # chs) c v =
     (case find_layer_collection ch c of
        Some found \<Rightarrow> assign_exclude ch c v # chs
      | None \<Rightarrow> ch # assign_in_children chs c v)"

text \<open>The flag a lookup of collection \<open>c\<close> reads; \<open>None\<close> when \<open>c\<close> has no node.\<close>

definition exclude_of :: "layer_collection \<Rightarrow> coll_id \<Rightarrow> bool option" where
  "exclude_of t c = map_option exclude (find_layer_collection t c)"

fun get_all_nested_collections :: "collection \<Rightarrow> collection list"
  and nested_of_children :: "collection list \<Rightarrow> collection list" where
  "get_all_nested_collections (Collection k chs) = nested_of_children chs"
| "nested_of_children [] = []"
| "nested_of_children (ch # chs) =
     ch # get_all_nested_collections ch @ nested_of_children chs"

text \<open>
  The loop of \<open>store_nested_states\<close>: one new state per nested collection that has a node,
  in the order of the traversal, recording the flag the node has now.
\<close>

fun store_loop :: "layer_collection \<Rightarrow> collection list \<Rightarrow> nested_collection_state list" where
  "store_loop t [] = []"
| "store_loop t (coll # colls) =
     (case find_layer_collection t (coll_id coll) of
        None \<Rightarrow> store_loop t colls
      | Some layer_coll \<Rightarrow>
          \<lparr>ns_collection = Some coll, ns_was_excluded = exclude layer_coll\<rparr> # store_loop t colls)"

text \<open>
  An outfit the source holds a reference to is given by its position \<open>k\<close> in
  \<open>amarillo_outfits\<close>; the current and the target outfit may be the same entry, so every
  read goes through the scene as it is at that moment.
\<close>

definition store_nested_states :: "scene \<Rightarrow> nat \<Rightarrow> scene" where
  "store_nested_states s k =
     (let outfit = amarillo_outfits s ! k in
      case o_collection outfit of
        None \<Rightarrow> s
      | Some c \<Rightarrow>
          s\<lparr>amarillo_outfits := (amarillo_outfits s)
               [k := outfit\<lparr>o_nested_states :=
                        store_loop (view_layer s) (get_all_nested_collections c)\<rparr>]\<rparr>)"

definition restore_step :: "nested_collection_state \<Rightarrow> layer_collection \<Rightarrow> layer_collection" where
  "restore_step st t =
     (case ns_collection st of
        None \<Rightarrow> t
      | Some c \<Rightarrow> assign_exclude t (coll_id c) (ns_was_excluded st))"

definition restore_nested_states :: "scene \<Rightarrow> nat \<Rightarrow> scene" where
  "restore_nested_states s k =
     (let outfit = amarillo_outfits s ! k in
      case o_collection outfit of
        None \<Rightarrow> s
      | Some c \<Rightarrow> s\<lparr>view_layer := fold restore_step (o_nested_states outfit) (view_layer s)\<rparr>)"

text \<open>\<open>key_blocks.get(name)\<close> returns the first block of that name; the assignment to its
  \<open>value\<close> is \<open>assign_value\<close>, which stores the value clamped to the slider range of the
  block as the host's setter does.\<close>

definition clamp_value :: "real \<Rightarrow> real \<Rightarrow> real \<Rightarrow> real" where
  "clamp_value lo hi v = (if v < lo then lo else if v > hi then hi else v)"

fun key_blocks_get :: "key_block list \<Rightarrow> string \<Rightarrow> key_block option" where
  "key_blocks_get [] n = None"
| "key_blocks_get (kb # kbs) n = (if kb_name kb = n then Some kb else key_blocks_get kbs n)"

fun assign_value :: "key_block list \<Rightarrow> string \<Rightarrow> real \<Rightarrow> key_block list" where
  "assign_value [] n v = []"
| "assign_value (kb # kbs) n v =
     (if kb_name kb = n
      then kb\<lparr>kb_value := clamp_value (kb_slider_min kb) (kb_slider_max kb) v\<rparr> # kbs
      else kb # assign_value kbs n v)"

text \<open>
  The body shared by the reset loop and the apply loop: when the entry's model is set, has
  shape keys and has a block of the entry's name, that block's value is written; every
  other case is skipped.
\<close>

definition set_shape_key_value ::
  "(object_id \<Rightarrow> mesh_object) \<Rightarrow> object_id option \<Rightarrow> string \<Rightarrow> real \<Rightarrow> (object_id \<Rightarrow> mesh_object)" where
  "set_shape_key_value objs model n v =
     (case model of
        None \<Rightarrow> objs
      | Some ob \<Rightarrow>
          (case ob_shape_keys (objs ob) of
             None \<Rightarrow> objs
           | Some kbs \<Rightarrow>
               (case key_blocks_get kbs n of
                  None \<Rightarrow> objs
                | Some key_block \<Rightarrow>
                    objs(ob := (objs ob)\<lparr>ob_shape_keys := Some (assign_value kbs n v)\<rparr>))))"

definition reset_outfit_shape_keys :: "scene \<Rightarrow> nat \<Rightarrow> scene" where
  "reset_outfit_shape_keys s k =
     s\<lparr>objects :=
         fold (\<lambda>e objs. set_shape_key_value objs (sk_model e) (sk_name e) 0)
           (o_shape_keys (amarillo_outfits s ! k)) (objects s)\<rparr>"

section \<open>The activation transition\<close>

text \<open>The three loops written inline in both \<open>execute\<close> methods: disable all outfit
  collections, enable the target's collection and restore its nested states, apply the
  target's shape-key values.\<close>

definition disable_step :: "outfit_entry \<Rightarrow> layer_collection \<Rightarrow> layer_collection" where
  "disable_step outfit t =
     (case o_collection outfit of
        None \<Rightarrow> t
      | Some c \<Rightarrow> assign_exclude t (coll_id c) True)"

definition disable_all :: "scene \<Rightarrow> scene" where
  "disable_all s = s\<lparr>view_layer := fold disable_step (amarillo_outfits s) (view_layer s)\<rparr>"

definition enable_target :: "scene \<Rightarrow> nat \<Rightarrow> scene" where
  "enable_target s k =
     (case o_collection (amarillo_outfits s ! k) of
        None \<Rightarrow> s
      | Some c \<Rightarrow>
          (case find_layer_collection (view_layer s) (coll_id c) of
             None \<Rightarrow> s
           | Some layer_coll \<Rightarrow>
               restore_nested_states
                 (s\<lparr>view_layer := assign_exclude (view_layer s) (coll_id c) False\<rparr>) k))"

definition apply_shape_keys :: "scene \<Rightarrow> nat \<Rightarrow> scene" where
  "apply_shape_keys s k =
     s\<lparr>objects :=
         fold (\<lambda>e objs. set_shape_key_value objs (sk_model e) (sk_name e) (sk_value e))
           (o_shape_keys (amarillo_outfits s ! k)) (objects s)\<rparr>"

text \<open>
  \<open>AMARILLO_OT_quick_activate_outfit.execute\<close> with operator property \<open>outfit_index\<close>. Both
  subscripts are evaluated before the first write, so an \<open>IndexError\<close> leaves the scene as
  it was.
\<close>

definition quick_activate_execute :: "scene \<Rightarrow> int \<Rightarrow> outcome" where
  "quick_activate_execute s outfit_index =
     (let outfits = amarillo_outfits s in
      if outfit_index \<ge> int (length outfits) then Inr (CANCELLED, s)
      else
        let current_index = amarillo_active_outfit_index s in
        case (if current_index < int (length outfits)
              then (case subscript outfits current_index of
                      None \<Rightarrow> Inl IndexError
                    | Some cur \<Rightarrow> Inr (Some cur))
              else Inr None) of
          Inl err \<Rightarrow> Inl err
        | Inr current_outfit \<Rightarrow>
            (case subscript outfits outfit_index of
               None \<Rightarrow> Inl IndexError
             | Some target_outfit \<Rightarrow>
                 let s1 = (case current_outfit of
                             None \<Rightarrow> s
                           | Some cur \<Rightarrow> reset_outfit_shape_keys (store_nested_states s cur) cur);
                     s2 = disable_all s1;
                     s3 = enable_target s2 target_outfit;
                     s4 = apply_shape_keys s3 target_outfit
                 in Inr (FINISHED, s4\<lparr>amarillo_active_outfit_index := outfit_index\<rparr>)))"

text \<open>\<open>AMARILLO_OT_activate_outfit.execute\<close>: the selected outfit is both the current and
  the target outfit; there is no bounds check and no write of the active index.\<close>

definition activate_execute :: "scene \<Rightarrow> outcome" where
  "activate_execute s =
     (let outfits = amarillo_outfits s;
          active_index = amarillo_active_outfit_index s
      in case subscript outfits active_index of
           None \<Rightarrow> Inl IndexError
         | Some current_outfit \<Rightarrow>
             let s1 = reset_outfit_shape_keys (store_nested_states s current_outfit) current_outfit;
                 s2 = disable_all s1;
                 s3 = enable_target s2 current_outfit;
                 s4 = apply_shape_keys s3 current_outfit
             in Inr (FINISHED, s4))"

section \<open>Outfit and model management\<close>

text \<open>\<open>AMARILLO_OT_remove_outfit.execute\<close>.\<close>

definition remove_outfit_execute :: "scene \<Rightarrow> outcome" where
  "remove_outfit_execute s =
     (let outfits = amarillo_outfits s in
      case subscript outfits (amarillo_active_outfit_index s) of
        None \<Rightarrow> Inl IndexError
      | Some k \<Rightarrow>
          let outfits1 = outfits[k := (outfits ! k)\<lparr>o_shape_keys := []\<rparr>];
              new_index = max 0 (amarillo_active_outfit_index s - 1)
          in Inr (FINISHED,
                  s\<lparr>amarillo_outfits := collection_remove outfits1 new_index,
                    amarillo_active_outfit_index := new_index\<rparr>))"

text \<open>
  \<open>AMARILLO_OT_remove_managed_model.execute\<close>. For each outfit the indices of the overrides
  whose model is the removed object are collected, then removed from the highest to the
  lowest; after each removal the active override index is lowered when it is past the end.
\<close>

definition to_remove :: "object_id option \<Rightarrow> outfit_entry \<Rightarrow> nat list" where
  "to_remove ob outfit =
     [i \<leftarrow> [0 ..< length (o_shape_keys outfit)]. sk_model (o_shape_keys outfit ! i) = ob]"

definition remove_override :: "nat \<Rightarrow> outfit_entry \<Rightarrow> outfit_entry" where
  "remove_override i outfit =
     (let outfit1 = outfit\<lparr>o_shape_keys := collection_remove (o_shape_keys outfit) (int i)\<rparr> in
      if o_active_shape_key_index outfit1 \<ge> int (length (o_shape_keys outfit1))
      then outfit1\<lparr>o_active_shape_key_index := max 0 (int (length (o_shape_keys outfit1)) - 1)\<rparr>
      else outfit1)"

definition remove_model_overrides :: "object_id option \<Rightarrow> outfit_entry \<Rightarrow> outfit_entry" where
  "remove_model_overrides ob outfit = fold remove_override (rev (to_remove ob outfit)) outfit"

definition remove_managed_model_execute :: "scene \<Rightarrow> outcome" where
  "remove_managed_model_execute s =
     (let models = amarillo_managed_models s;
          active_index = amarillo_active_model_index s
      in if active_index \<ge> 0 \<and> active_index < int (length models) then
           let model = models ! nat active_index in
           Inr (FINISHED,
                s\<lparr>amarillo_outfits := map (remove_model_overrides (mm_object model)) (amarillo_outfits s),
                  amarillo_managed_models := collection_remove models active_index,
                  amarillo_active_model_index := max 0 (active_index - 1)\<rparr>)
         else Inr (CANCELLED, s))"

text \<open>\<open>object.active_shape_key\<close>: the block at the object's active shape-key index, if the
  object has shape keys and the index is in range.\<close>

definition active_shape_key :: "mesh_object \<Rightarrow> key_block option" where
  "active_shape_key ob =
     (case ob_shape_keys ob of
        None \<Rightarrow> None
      | Some kbs \<Rightarrow>
          if ob_active_shape_key_index ob < length kbs
          then Some (kbs ! ob_active_shape_key_index ob) else None)"

text \<open>\<open>AMARILLO_OT_add_shape_key.execute\<close>. The reports only display a message and are
  left out; both subscripts come before any write. The value of the new override is a
  float property with hard limits 0 and 1, so the assigned weight is stored clamped.\<close>

definition add_shape_key_execute :: "scene \<Rightarrow> outcome" where
  "add_shape_key_execute s =
     (case subscript (amarillo_outfits s) (amarillo_active_outfit_index s) of
        None \<Rightarrow> Inl IndexError
      | Some k \<Rightarrow>
          if amarillo_active_model_index s \<ge> 0 then
            (case subscript (amarillo_managed_models s) (amarillo_active_model_index s) of
               None \<Rightarrow> Inl IndexError
             | Some j \<Rightarrow>
                 (case mm_object (amarillo_managed_models s ! j) of
                    None \<Rightarrow> Inr (CANCELLED, s)
                  | Some ob \<Rightarrow>
                      (case ob_shape_keys (objects s ob) of
                         None \<Rightarrow> Inr (CANCELLED, s)
                       | Some kbs \<Rightarrow>
                           (case active_shape_key (objects s ob) of
                              None \<Rightarrow> Inr (CANCELLED, s)
                            | Some active_key \<Rightarrow>
                                if kb_name active_key \<noteq> ''Basis'' then
                                  let outfit = amarillo_outfits s ! k;
                                      new_shape_key =
                                        \<lparr>sk_name = kb_name active_key,
                                         sk_value = clamp_value 0 1 (kb_value active_key),
                                         sk_model = Some ob\<rparr>
                                  in Inr (FINISHED,
                                          s\<lparr>amarillo_outfits := (amarillo_outfits s)
                                               [k := outfit\<lparr>o_shape_keys :=
                                                        o_shape_keys outfit @ [new_shape_key]\<rparr>]\<rparr>)
                                else Inr (CANCELLED, s)))))
          else Inr (CANCELLED, s))"

section \<open>Vocabulary of the properties\<close>

text \<open>An active index \<open>a\<close> into a list lies in \<open>[0, len - 1]\<close>, or is 0 when the list is
  empty.\<close>

definition index_in_bounds :: "int \<Rightarrow> 'a list \<Rightarrow> bool" where
  "index_in_bounds a xs = (0 \<le> a \<and> a \<le> max 0 (int (length xs) - 1))"

text \<open>
  What an activation may write is named by what stays when it is erased: a visibility tree
  without its flags (the exclusion flag and the host's memory of it), a mesh object
  without its weights, an outfit without its snapshot.
  \<open>activation_frame previous s s'\<close> says that \<open>s'\<close> differs from \<open>s\<close> at most in exclusion
  flags, shape-key weights, the snapshot of the outfit at position \<open>previous\<close> and the active
  outfit index.
\<close>

fun erase_flags :: "layer_collection \<Rightarrow> layer_collection" where
  "erase_flags (LayerCollection k e p chs) = LayerCollection k False False (map erase_flags chs)"

definition erase_weights :: "mesh_object \<Rightarrow> mesh_object" where
  "erase_weights ob =
     ob\<lparr>ob_shape_keys := map_option (map (\<lambda>kb. kb\<lparr>kb_value := 0\<rparr>)) (ob_shape_keys ob)\<rparr>"

definition strip_snapshot :: "outfit_entry \<Rightarrow> outfit_entry" where
  "strip_snapshot outfit = outfit\<lparr>o_nested_states := []\<rparr>"

definition activation_frame :: "nat option \<Rightarrow> scene \<Rightarrow> scene \<Rightarrow> bool" where
  "activation_frame previous s s' =
     (map strip_snapshot (amarillo_outfits s') = map strip_snapshot (amarillo_outfits s) \<and>
      (\<forall>i < length (amarillo_outfits s).
         previous \<noteq> Some i \<longrightarrow> amarillo_outfits s' ! i = amarillo_outfits s ! i) \<and>
      amarillo_managed_models s' = amarillo_managed_models s \<and>
      amarillo_active_model_index s' = amarillo_active_model_index s \<and>
      erase_flags (view_layer s') = erase_flags (view_layer s) \<and>
      (\<forall>ob. erase_weights (objects s' ob) = erase_weights (objects s ob)))"

text \<open>
  The shape of the visibility tree. \<open>layer_ids\<close> lists the collections of a node and of
  all nodes below it, \<open>below_ids t c\<close> the collections of the nodes below the node of \<open>c\<close>,
  and \<open>covers t c d\<close> says that an assignment to the flag of \<open>c\<close> can reach the node of \<open>d\<close>:
  \<open>c\<close> has a node and \<open>d\<close> is \<open>c\<close> or lies below it. \<open>hierarchy_of\<close> is the containment tree a node stands for.
  The host builds the view layer's tree from the containment tree, one child node per
  child collection and in the same order; \<open>nested_as_hierarchy t c\<close> states that much for
  \<open>c\<close> and the collections nested in it, as far as they have a node.
\<close>

fun layer_ids :: "layer_collection \<Rightarrow> coll_id list" where
  "layer_ids (LayerCollection k e p chs) = k # concat (map layer_ids chs)"

definition below_node :: "layer_collection option \<Rightarrow> coll_id list" where
  "below_node found =
     (case found of None \<Rightarrow> [] | Some n \<Rightarrow> concat (map layer_ids (lc_children n)))"

definition below_ids :: "layer_collection \<Rightarrow> coll_id \<Rightarrow> coll_id list" where
  "below_ids t c = below_node (find_layer_collection t c)"

definition covers :: "layer_collection \<Rightarrow> coll_id \<Rightarrow> coll_id \<Rightarrow> bool" where
  "covers t c d = (exclude_of t c \<noteq> None \<and> (d = c \<or> d \<in> set (below_ids t c)))"

fun hierarchy_of :: "layer_collection \<Rightarrow> collection" where
  "hierarchy_of (LayerCollection k e p chs) = Collection k (map hierarchy_of chs)"

definition nested_as_hierarchy :: "layer_collection \<Rightarrow> collection \<Rightarrow> bool" where
  "nested_as_hierarchy t c =
     list_all
       (\<lambda>x. case find_layer_collection t (coll_id x) of
              None \<Rightarrow> True
            | Some n \<Rightarrow> hierarchy_of n = x)
       (c # get_all_nested_collections c)"

text \<open>The outfit quick-activate treats as the current one.\<close>

definition previous_outfit :: "scene \<Rightarrow> nat option" where
  "previous_outfit s =
     (if amarillo_active_outfit_index s < int (length (amarillo_outfits s))
      then subscript (amarillo_outfits s) (amarillo_active_outfit_index s) else None)"

text \<open>
  The loops of an activation seen as lists of writes. \<open>snapshot_writes\<close> are the writes the
  restore loop attempts for a snapshot, \<open>disable_writes\<close> are the writes of the disable
  loop, \<open>enable_writes\<close> are the writes that follow it for a target outfit (none when the
  target is unbound or its collection has no node) and \<open>bound_id\<close> is the identity of an
  outfit's bound collection.
\<close>

definition snapshot_writes :: "nested_collection_state list \<Rightarrow> (coll_id \<times> bool) list" where
  "snapshot_writes sts =
     List.map_filter
       (\<lambda>st. map_option (\<lambda>c. (coll_id c, ns_was_excluded st)) (ns_collection st)) sts"

text \<open>A snapshot that records only collections nested in the bound collection of its
  outfit, as every snapshot does when it is taken.\<close>

definition snapshot_within :: "outfit_entry \<Rightarrow> bool" where
  "snapshot_within outfit =
     (case o_collection outfit of
        None \<Rightarrow> True
      | Some c \<Rightarrow>
          list_all (\<lambda>w. fst w \<in> coll_id ` set (get_all_nested_collections c))
            (snapshot_writes (o_nested_states outfit)))"

definition bound_id :: "outfit_entry \<Rightarrow> coll_id option" where
  "bound_id outfit = map_option coll_id (o_collection outfit)"

definition disable_writes :: "outfit_entry list \<Rightarrow> (coll_id \<times> bool) list" where
  "disable_writes outfits = List.map_filter (\<lambda>outfit. map_option (\<lambda>d. (d, True)) (bound_id outfit)) outfits"

definition enable_writes :: "layer_collection \<Rightarrow> outfit_entry \<Rightarrow> (coll_id \<times> bool) list" where
  "enable_writes t outfit =
     (case bound_id outfit of
        None \<Rightarrow> []
      | Some d \<Rightarrow>
          if exclude_of t d = None then []
          else (d, False) # snapshot_writes (o_nested_states outfit))"

text \<open>
  A shape key is addressed by its object and its name. \<open>weight_of\<close> is the live weight
  (\<open>None\<close> when the key does not resolve), \<open>override_writes\<close> are the writes the apply loop
  attempts for a list of overrides and \<open>stored_weight\<close> is the value they hold for a key
  (that of the last override on it).
\<close>

definition weight_of :: "(object_id \<Rightarrow> mesh_object) \<Rightarrow> object_id \<times> string \<Rightarrow> real option" where
  "weight_of objs key =
     (case ob_shape_keys (objs (fst key)) of
        None \<Rightarrow> None
      | Some kbs \<Rightarrow> map_option kb_value (key_blocks_get kbs (snd key)))"

text \<open>The value an assignment of \<open>v\<close> to a key leaves there: \<open>v\<close> clamped to the slider
  range of the key.\<close>

definition slider_clamp :: "(object_id \<Rightarrow> mesh_object) \<Rightarrow> object_id \<times> string \<Rightarrow> real \<Rightarrow> real" where
  "slider_clamp objs key v =
     (case ob_shape_keys (objs (fst key)) of
        None \<Rightarrow> v
      | Some kbs \<Rightarrow>
          (case key_blocks_get kbs (snd key) of
             None \<Rightarrow> v
           | Some kb \<Rightarrow> clamp_value (kb_slider_min kb) (kb_slider_max kb) v))"

definition override_writes :: "shape_key_entry list \<Rightarrow> ((object_id \<times> string) \<times> real) list" where
  "override_writes es =
     List.map_filter (\<lambda>e. map_option (\<lambda>m. ((m, sk_name e), sk_value e)) (sk_model e)) es"


text \<open>One write of a list, to the visibility tree and to the object store.\<close>

abbreviation assign_flag :: "coll_id \<times> bool \<Rightarrow> layer_collection \<Rightarrow> layer_collection" where
  "assign_flag \<equiv> \<lambda>(k, v) t. assign_exclude t k v"

abbreviation assign_weight ::
  "(object_id \<times> string) \<times> real \<Rightarrow> (object_id \<Rightarrow> mesh_object) \<Rightarrow> (object_id \<Rightarrow> mesh_object)" where
  "assign_weight \<equiv> \<lambda>(key, v) objs. set_shape_key_value objs (Some (fst key)) (snd key) v"

text \<open>The writes the reset loop attempts, and all tree writes of one activation with
  target position \<open>k\<close>, in their order.\<close>

definition zero_writes :: "shape_key_entry list \<Rightarrow> ((object_id \<times> string) \<times> real) list" where
  "zero_writes es =
     List.map_filter (\<lambda>e. map_option (\<lambda>m. ((m, sk_name e), 0)) (sk_model e)) es"

definition transition_writes ::
  "outfit_entry list \<Rightarrow> layer_collection \<Rightarrow> nat \<Rightarrow> (coll_id \<times> bool) list" where
  "transition_writes outfits t k = disable_writes outfits @ enable_writes t (outfits ! k)"

text \<open>
  The transition both \<open>execute\<close> methods run once their subscripts have succeeded:
  \<open>previous\<close> is the position of the outfit that is stored and reset (none when
  quick-activate finds the active index past the end), \<open>k\<close> the position of the target.
\<close>

definition transition :: "scene \<Rightarrow> nat option \<Rightarrow> nat \<Rightarrow> scene" where
  "transition s previous k =
     apply_shape_keys
       (enable_target
          (disable_all
             (case previous of
                None \<Rightarrow> s
              | Some p \<Rightarrow> reset_outfit_shape_keys (store_nested_states s p) p)) k) k"

text \<open>Running quick-activate, or the activate-selected operator, on the scene an earlier
  operator returned; an exception of the earlier operator is passed on.\<close>

definition then_quick_activate :: "outcome \<Rightarrow> int \<Rightarrow> outcome" where
  "then_quick_activate out outfit_index =
     (case out of
        Inl err \<Rightarrow> Inl err
      | Inr (r, s) \<Rightarrow> quick_activate_execute s outfit_index)"

definition then_activate :: "outcome \<Rightarrow> outcome" where
  "then_activate out =
     (case out of
        Inl err \<Rightarrow> Inl err
      | Inr (r, s) \<Rightarrow> activate_execute s)"


definition exclude_after :: "outcome \<Rightarrow> coll_id \<Rightarrow> bool option" where
  "exclude_after out d =
     (case out of Inl err \<Rightarrow> None | Inr (r, s) \<Rightarrow> exclude_of (view_layer s) d)"

section \<open>A concrete scene\<close>

text \<open>
  Two outfits: \<open>Casual\<close> bound to collection 1 (children 2 and 3, grandchild 4) with one
  override on key \<open>Smile\<close> of object 7, and \<open>Formal\<close> bound to collection 5 with one
  override on key \<open>Frown\<close> of the same object. \<open>Casual\<close> is selected; sub-collection 2
  is excluded.
\<close>

definition demo_body :: collection where
  "demo_body = Collection 1 [Collection 2 [], Collection 3 [Collection 4 []]]"

definition demo_formal :: collection where
  "demo_formal = Collection 5 []"

definition demo_layer :: layer_collection where
  "demo_layer =
     LayerCollection 0 False False
       [LayerCollection 1 False False
          [LayerCollection 2 True False [], LayerCollection 3 False False [LayerCollection 4 False False []]],
        LayerCollection 5 True False []]"

definition no_shape_keys :: mesh_object where
  "no_shape_keys = \<lparr>ob_shape_keys = None, ob_active_shape_key_index = 0\<rparr>"

definition demo_face :: mesh_object where
  "demo_face =
     \<lparr>ob_shape_keys = Some [\<lparr>kb_name = ''Basis'', kb_value = 0, kb_slider_min = 0, kb_slider_max = 1\<rparr>,
                            \<lparr>kb_name = ''Smile'', kb_value = 3 / 10, kb_slider_min = 0, kb_slider_max = 1\<rparr>,
                            \<lparr>kb_name = ''Frown'', kb_value = 0, kb_slider_min = 0, kb_slider_max = 1\<rparr>],
      ob_active_shape_key_index = 1\<rparr>"

definition demo_objects :: "object_id \<Rightarrow> mesh_object" where
  "demo_objects = (\<lambda>ob. if ob = 7 then demo_face else no_shape_keys)"

definition demo_casual :: outfit_entry where
  "demo_casual =
     \<lparr>o_name = ''Casual'', o_collection = Some demo_body,
      o_shape_keys = [\<lparr>sk_name = ''Smile'', sk_value = 8 / 10, sk_model = Some 7\<rparr>],
      o_active_shape_key_index = 0, o_nested_states = []\<rparr>"

definition demo_formal_outfit :: outfit_entry where
  "demo_formal_outfit =
     \<lparr>o_name = ''Formal'', o_collection = Some demo_formal,
      o_shape_keys = [\<lparr>sk_name = ''Frown'', sk_value = 1 / 2, sk_model = Some 7\<rparr>],
      o_active_shape_key_index = 0, o_nested_states = []\<rparr>"

definition demo_scene :: scene where
  "demo_scene =
     \<lparr>amarillo_outfits = [demo_casual, demo_formal_outfit],
      amarillo_active_outfit_index = 0,
      amarillo_managed_models = [\<lparr>mm_name = [], mm_object = Some 7\<rparr>],
      amarillo_active_model_index = 0,
      view_layer = demo_layer,
      objects = demo_objects\<rparr>"

text \<open>
  Scenes for the model registry. In \<open>cascade_scene\<close> the first outfit has three overrides,
  two of them on object 7, and the last one is active. \<open>stale_start\<close> has \<open>Formal\<close>
  selected, with two overrides and the second one active; \<open>stale_scene\<close> is what the
  remove-outfit operator makes of it.
\<close>

definition cascade_scene :: scene where
  "cascade_scene =
     demo_scene\<lparr>amarillo_outfits :=
       [demo_casual\<lparr>o_shape_keys :=
           [\<lparr>sk_name = ''Smile'', sk_value = 8 / 10, sk_model = Some 7\<rparr>,
            \<lparr>sk_name = ''Blink'', sk_value = 1, sk_model = Some 8\<rparr>,
            \<lparr>sk_name = ''Frown'', sk_value = 1 / 2, sk_model = Some 7\<rparr>],
          o_active_shape_key_index := 2\<rparr>,
        demo_formal_outfit]\<rparr>"

definition stale_start :: scene where
  "stale_start =
     demo_scene\<lparr>amarillo_outfits :=
       [demo_casual,
        demo_formal_outfit\<lparr>o_shape_keys :=
           [\<lparr>sk_name = ''Frown'', sk_value = 1 / 2, sk_model = Some 7\<rparr>,
            \<lparr>sk_name = ''Smile'', sk_value = 1, sk_model = Some 7\<rparr>],
          o_active_shape_key_index := 1\<rparr>],
       amarillo_active_outfit_index := 1\<rparr>"

definition stale_scene :: scene where
  "stale_scene =
     demo_scene\<lparr>amarillo_outfits :=
       [demo_formal_outfit\<lparr>o_shape_keys := [], o_active_shape_key_index := 1\<rparr>]\<rparr>"

text \<open>
  Scenes for the flag pattern. In \<open>nested_scene\<close> a third outfit, \<open>Shoes\<close>, is bound to
  sub-collection 3 of the collection bound to \<open>Casual\<close>, and \<open>Formal\<close> is active; in
  \<open>twin_scene\<close> a second outfit \<open>Twin\<close> is bound to the same collection as \<open>Casual\<close>. In
  \<open>rebound_scene\<close> the outfit \<open>Casual\<close> has been bound anew to collection 2, which its
  snapshot records as excluded; in \<open>unbound_scene\<close> its binding has been cleared while its
  snapshot remains. In \<open>return_scene\<close> \<open>Formal\<close> is active and \<open>Casual\<close> holds a snapshot
  of its three descendants.
\<close>

definition twin_outfit :: outfit_entry where
  "twin_outfit =
     \<lparr>o_name = ''Twin'', o_collection = Some demo_body, o_shape_keys = [],
      o_active_shape_key_index = 0, o_nested_states = []\<rparr>"

definition shoes_outfit :: outfit_entry where
  "shoes_outfit =
     \<lparr>o_name = ''Shoes'', o_collection = Some (Collection 3 [Collection 4 []]), o_shape_keys = [],
      o_active_shape_key_index = 0, o_nested_states = []\<rparr>"

definition body_snapshot :: "nested_collection_state list" where
  "body_snapshot =
     [\<lparr>ns_collection = Some (Collection 2 []), ns_was_excluded = True\<rparr>,
      \<lparr>ns_collection = Some (Collection 3 [Collection 4 []]), ns_was_excluded = False\<rparr>,
      \<lparr>ns_collection = Some (Collection 4 []), ns_was_excluded = False\<rparr>]"

definition nested_scene :: scene where
  "nested_scene =
     demo_scene\<lparr>amarillo_outfits := [demo_casual, demo_formal_outfit, shoes_outfit],
       amarillo_active_outfit_index := 1\<rparr>"

definition twin_scene :: scene where
  "twin_scene =
     demo_scene\<lparr>amarillo_outfits := [demo_casual, twin_outfit],
       amarillo_active_outfit_index := 1\<rparr>"

definition rebound_scene :: scene where
  "rebound_scene =
     demo_scene\<lparr>amarillo_outfits :=
       [demo_casual\<lparr>o_collection := Some (Collection 2 []),
          o_nested_states := [\<lparr>ns_collection = Some (Collection 2 []), ns_was_excluded = True\<rparr>]\<rparr>,
        demo_formal_outfit],
       amarillo_active_outfit_index := 1\<rparr>"

definition unbound_scene :: scene where
  "unbound_scene =
     demo_scene\<lparr>amarillo_outfits :=
       [demo_casual\<lparr>o_collection := None,
          o_nested_states := [\<lparr>ns_collection = Some (Collection 2 []), ns_was_excluded = False\<rparr>]\<rparr>,
        demo_formal_outfit],
       amarillo_active_outfit_index := 1\<rparr>"

definition return_scene :: scene where
  "return_scene =
     demo_scene\<lparr>amarillo_outfits :=
       [demo_casual\<lparr>o_nested_states := body_snapshot\<rparr>, demo_formal_outfit],
       amarillo_active_outfit_index := 1,
       view_layer :=
         LayerCollection 0 False False
           [LayerCollection 1 True False
              [LayerCollection 2 False False [], LayerCollection 3 True False [LayerCollection 4 True False []]],
            LayerCollection 5 False False []]\<rparr>"





section \<open>Reading and writing exclusion flags\<close>

lemma erase_flags_recursive [simp]: "erase_flags (flag_set_recursive v t) = erase_flags t"
  by (induction v t rule: flag_set_recursive.induct) simp

lemma erase_flags_setter [simp]: "erase_flags (exclude_setter v t) = erase_flags t"
  by (cases t) simp

lemma erase_flags_assign:
  "erase_flags (assign_exclude t c v) = erase_flags t"
  "map erase_flags (assign_in_children ts c v) = map erase_flags ts"
  by (induction t c v and ts c v rule: assign_exclude_assign_in_children.induct)
     (auto split: option.splits)

lemma layer_ids_erase [simp]: "layer_ids (erase_flags t) = layer_ids t"
proof (induction t)
  case (LayerCollection k e p chs)
  then have "concat (map (layer_ids \<circ> erase_flags) chs) = concat (map layer_ids chs)"
    by (intro arg_cong[where f = concat] map_cong) simp_all
  then show ?case by simp
qed

lemma hierarchy_erase [simp]: "hierarchy_of (erase_flags t) = hierarchy_of t"
  by (induction t) simp

lemma find_erase:
  "find_layer_collection (erase_flags t) c = map_option erase_flags (find_layer_collection t c)"
  "find_in_children (map erase_flags ts) c = map_option erase_flags (find_in_children ts c)"
  by (induction t c and ts c rule: find_layer_collection_find_in_children.induct)
     (auto split: option.splits)

lemma below_node_erase [simp]: "below_node (map_option erase_flags found) = below_node found"
proof (cases found)
  case None
  then show ?thesis by simp
next
  case (Some n)
  obtain k e p chs where n: "n = LayerCollection k e p chs" by (cases n)
  have "concat (map (layer_ids \<circ> erase_flags) chs) = concat (map layer_ids chs)"
    by (intro arg_cong[where f = concat] map_cong) simp_all
  then show ?thesis by (simp add: Some n below_node_def)
qed

text \<open>What depends on the shape of the tree only.\<close>

lemma same_shape:
  assumes "erase_flags t' = erase_flags t"
  shows "layer_ids t' = layer_ids t"
    and "below_ids t' c = below_ids t c"
    and "find_layer_collection t' c = None \<longleftrightarrow> find_layer_collection t c = None"
    and "exclude_of t' c = None \<longleftrightarrow> exclude_of t c = None"
    and "covers t' c d = covers t c d"
    and "map_option hierarchy_of (find_layer_collection t' c) =
         map_option hierarchy_of (find_layer_collection t c)"
proof -
  show "layer_ids t' = layer_ids t"
    using assms layer_ids_erase by metis
  have f: "map_option erase_flags (find_layer_collection t' c) =
           map_option erase_flags (find_layer_collection t c)"
    using assms find_erase(1) by metis
  then show b: "below_ids t' c = below_ids t c"
    unfolding below_ids_def using below_node_erase by metis
  from f show n: "find_layer_collection t' c = None \<longleftrightarrow> find_layer_collection t c = None"
    by (cases "find_layer_collection t' c"; cases "find_layer_collection t c") simp_all
  then show e: "exclude_of t' c = None \<longleftrightarrow> exclude_of t c = None" by (simp add: exclude_of_def)
  from b e show "covers t' c d = covers t c d" by (simp add: covers_def)
  from f have "map_option (hierarchy_of \<circ> erase_flags) (find_layer_collection t' c) =
           map_option (hierarchy_of \<circ> erase_flags) (find_layer_collection t c)"
    by (cases "find_layer_collection t' c"; cases "find_layer_collection t c") simp_all
  then show "map_option hierarchy_of (find_layer_collection t' c) =
         map_option hierarchy_of (find_layer_collection t c)"
    by (simp add: comp_def)
qed

lemma find_absent_ids:
  "c \<notin> set (layer_ids t) \<Longrightarrow> find_layer_collection t c = None"
  "c \<notin> set (concat (map layer_ids ts)) \<Longrightarrow> find_in_children ts c = None"
  by (induction t c and ts c rule: find_layer_collection_find_in_children.induct) auto

lemma find_present_ids:
  "c \<in> set (layer_ids t) \<Longrightarrow> find_layer_collection t c \<noteq> None"
  "c \<in> set (concat (map layer_ids ts)) \<Longrightarrow> find_in_children ts c \<noteq> None"
  by (induction t c and ts c rule: find_layer_collection_find_in_children.induct)
     (auto split: option.splits)

lemma find_ids_subset:
  "find_layer_collection t c = Some n \<Longrightarrow> set (layer_ids n) \<subseteq> set (layer_ids t)"
  "find_in_children ts c = Some n \<Longrightarrow> set (layer_ids n) \<subseteq> set (concat (map layer_ids ts))"
  by (induction t c and ts c rule: find_layer_collection_find_in_children.induct)
     (auto split: option.splits if_splits)

lemma find_root_id:
  "find_layer_collection t c = Some n \<Longrightarrow> lc_collection n = c"
  "find_in_children ts c = Some n \<Longrightarrow> lc_collection n = c"
  by (induction t c and ts c rule: find_layer_collection_find_in_children.induct)
     (auto split: option.splits if_splits)

lemma assign_absent:
  "find_layer_collection t c = None \<Longrightarrow> assign_exclude t c v = t"
  "find_in_children ts c = None \<Longrightarrow> assign_in_children ts c v = ts"
  by (induction t c v and ts c v rule: assign_exclude_assign_in_children.induct)
     (auto split: option.splits if_splits)

lemma find_recursive:
  "map_option exclude (find_layer_collection (flag_set_recursive True t) m) =
     map_option (\<lambda>_. True) (find_layer_collection t m)"
  "map_option exclude (find_in_children (map (flag_set_recursive True) ts) m) =
     map_option (\<lambda>_. True) (find_in_children ts m)"
  by (induction t m and ts m rule: find_layer_collection_find_in_children.induct)
     (auto split: option.splits)

lemma exclude_setter_root: "exclude (exclude_setter v n) = v"
  by (cases n) simp

lemma find_recursive_None:
  "find_layer_collection (flag_set_recursive v t) m = None \<longleftrightarrow> find_layer_collection t m = None"
  using same_shape(3)[of "flag_set_recursive v t" t m] by simp

lemma assign_self:
  "find_layer_collection t c \<noteq> None \<Longrightarrow>
     map_option exclude (find_layer_collection (assign_exclude t c v) c) = Some v"
  "find_in_children ts c \<noteq> None \<Longrightarrow>
     map_option exclude (find_in_children (assign_in_children ts c v) c) = Some v"
  by (induction t c v and ts c v rule: assign_exclude_assign_in_children.induct)
     (auto split: option.splits)

lemma exclude_of_assign_self:
  "exclude_of t c \<noteq> None \<Longrightarrow> exclude_of (assign_exclude t c v) c = Some v"
  by (simp add: exclude_of_def assign_self)

lemma ids_recursive [simp]: "layer_ids (flag_set_recursive v t) = layer_ids t"
  using same_shape(1)[of "flag_set_recursive v t" t] by simp

lemma assign_frame:
  "m \<noteq> c \<Longrightarrow> m \<notin> set (below_node (find_layer_collection t c)) \<Longrightarrow>
     map_option exclude (find_layer_collection (assign_exclude t c v) m) =
     map_option exclude (find_layer_collection t m)"
  "m \<noteq> c \<Longrightarrow> m \<notin> set (below_node (find_in_children ts c)) \<Longrightarrow>
     map_option exclude (find_in_children (assign_in_children ts c v) m) =
     map_option exclude (find_in_children ts m)"
proof (induction t c v and ts c v rule: assign_exclude_assign_in_children.induct)
  case (1 k e p chs c v)
  show ?case
  proof (cases "k = c")
    case True
    with 1(3) have out: "m \<notin> set (concat (map layer_ids chs))" by (simp add: below_node_def)
    then have "m \<notin> set (concat (map layer_ids (map (flag_set_recursive v) chs)))"
      by (simp add: comp_def)
    then have "find_in_children (map (flag_set_recursive v) chs) m = None"
      by (rule find_absent_ids)
    moreover from out have "find_in_children chs m = None" by (rule find_absent_ids)
    ultimately show ?thesis using True 1(2) by simp
  next
    case False
    with 1 show ?thesis by simp
  qed
next
  case (2 c v)
  show ?case by simp
next
  case (3 ch chs c v)
  show ?case
  proof (cases "find_layer_collection ch c")
    case None
    with 3(1)[OF None 3(3)] 3(4) show ?thesis by (simp split: option.splits)
  next
    case (Some found)
    have same: "find_layer_collection (assign_exclude ch c v) m = None \<longleftrightarrow>
                find_layer_collection ch m = None"
      by (rule same_shape(3)) (rule erase_flags_assign)
    from Some 3(2)[OF Some 3(3)] 3(4)
    have "map_option exclude (find_layer_collection (assign_exclude ch c v) m) =
          map_option exclude (find_layer_collection ch m)" by simp
    with same Some show ?thesis
      by (cases "find_layer_collection (assign_exclude ch c v) m";
          cases "find_layer_collection ch m") simp_all
  qed
qed

lemma exclude_of_assign_frame:
  assumes "\<not> covers t c m"
  shows "exclude_of (assign_exclude t c v) m = exclude_of t m"
proof (cases "find_layer_collection t c")
  case None
  then show ?thesis by (simp add: assign_absent)
next
  case (Some n)
  with assms show ?thesis
    by (simp add: covers_def below_ids_def exclude_of_def assign_frame)
qed

lemma assign_true_or_same:
  "map_option exclude (find_layer_collection (assign_exclude t c True) m) = Some True \<or>
   map_option exclude (find_layer_collection (assign_exclude t c True) m) =
     map_option exclude (find_layer_collection t m)"
  "map_option exclude (find_in_children (assign_in_children ts c True) m) = Some True \<or>
   map_option exclude (find_in_children (assign_in_children ts c True) m) =
     map_option exclude (find_in_children ts m)"
proof (induction t c "True" and ts c "True" rule: assign_exclude_assign_in_children.induct)
  case (1 k e p chs c)
  show ?case
  proof (cases "k = c")
    case True
    show ?thesis
    proof (cases "m = c")
      case True
      with \<open>k = c\<close> show ?thesis by simp
    next
      case False
      have "map_option exclude (find_in_children (map (flag_set_recursive True) chs) m) =
              map_option (\<lambda>_. True) (find_in_children chs m)" by (rule find_recursive)
      with False \<open>k = c\<close> show ?thesis
        by (cases "find_in_children chs m") simp_all
    qed
  next
    case False
    with 1 show ?thesis by auto
  qed
next
  case (2 c)
  show ?case by simp
next
  case (3 ch chs c)
  show ?case
  proof (cases "find_layer_collection ch c")
    case None
    with 3(1)[OF None] show ?thesis by (cases "find_layer_collection ch m") auto
  next
    case (Some found)
    have same: "find_layer_collection (assign_exclude ch c True) m = None \<longleftrightarrow>
                find_layer_collection ch m = None"
      by (rule same_shape(3)) (rule erase_flags_assign)
    from 3(2)[OF Some] same Some show ?thesis
      by (cases "find_layer_collection (assign_exclude ch c True) m";
          cases "find_layer_collection ch m") auto
  qed
qed

lemma exclude_of_true_or_same:
  "exclude_of (assign_exclude t c True) m = Some True \<or>
   exclude_of (assign_exclude t c True) m = exclude_of t m"
  using assign_true_or_same(1)[of t c m] by (simp add: exclude_of_def)

lemma assign_cascade:
  "distinct (layer_ids t) \<Longrightarrow> m \<in> set (below_node (find_layer_collection t c)) \<Longrightarrow>
     map_option exclude (find_layer_collection (assign_exclude t c True) m) = Some True"
  "distinct (concat (map layer_ids ts)) \<Longrightarrow> m \<in> set (below_node (find_in_children ts c)) \<Longrightarrow>
     map_option exclude (find_in_children (assign_in_children ts c True) m) = Some True"
proof (induction t c "True" and ts c "True" rule: assign_exclude_assign_in_children.induct)
  case (1 k e p chs c)
  show ?case
  proof (cases "k = c")
    case True
    with 1(3) have inside: "m \<in> set (concat (map layer_ids chs))" by (simp add: below_node_def)
    with 1(2) have "m \<noteq> k" by auto
    from inside have "find_in_children chs m \<noteq> None" by (rule find_present_ids)
    moreover have "map_option exclude (find_in_children (map (flag_set_recursive True) chs) m) =
              map_option (\<lambda>_. True) (find_in_children chs m)" by (rule find_recursive)
    ultimately show ?thesis using True \<open>m \<noteq> k\<close> by auto
  next
    case False
    from 1(3) False have b: "m \<in> set (below_node (find_in_children chs c))" by simp
    then obtain n where n: "find_in_children chs c = Some n"
      by (cases "find_in_children chs c") (simp_all add: below_node_def)
    from b n have "m \<in> set (layer_ids n)" by (cases n) (simp add: below_node_def)
    with find_ids_subset(2)[OF n] have "m \<in> set (concat (map layer_ids chs))" by blast
    with 1(2) have "m \<noteq> k" by auto
    from 1(2) have "distinct (concat (map layer_ids chs))" by simp
    from 1(1)[OF False this b] False \<open>m \<noteq> k\<close> show ?thesis by simp
  qed
next
  case (2 c)
  then show ?case by (simp add: below_node_def)
next
  case (3 ch chs c)
  from 3(3) have d1: "distinct (layer_ids ch)" and d2: "distinct (concat (map layer_ids chs))"
    and disj: "set (layer_ids ch) \<inter> set (concat (map layer_ids chs)) = {}"
    by simp_all
  show ?case
  proof (cases "find_layer_collection ch c")
    case None
    with 3(4) have b: "m \<in> set (below_node (find_in_children chs c))" by simp
    then obtain n where n: "find_in_children chs c = Some n"
      by (cases "find_in_children chs c") (simp_all add: below_node_def)
    from b n have "m \<in> set (layer_ids n)" by (cases n) (simp add: below_node_def)
    with find_ids_subset(2)[OF n] have "m \<in> set (concat (map layer_ids chs))" by blast
    with disj have "m \<notin> set (layer_ids ch)" by auto
    then have "find_layer_collection ch m = None" by (rule find_absent_ids)
    with None 3(1)[OF None d2 b] show ?thesis by simp
  next
    case (Some found)
    with 3(4) have b: "m \<in> set (below_node (find_layer_collection ch c))" by simp
    from 3(2)[OF Some d1 b] Some show ?thesis by (auto split: option.splits)
  qed
qed

lemma exclude_of_assign_cascade:
  "distinct (layer_ids t) \<Longrightarrow> m \<in> set (below_ids t c) \<Longrightarrow>
     exclude_of (assign_exclude t c True) m = Some True"
  by (simp add: below_ids_def exclude_of_def assign_cascade)

section \<open>The traversal of the containment tree\<close>

lemma ids_of_hierarchy:
  "layer_ids n = coll_id (hierarchy_of n) # map coll_id (get_all_nested_collections (hierarchy_of n))"
proof (induction n)
  case (LayerCollection k e p chs)
  have "concat (map layer_ids ns) = map coll_id (nested_of_children (map hierarchy_of ns))"
    if "set ns \<subseteq> set chs" for ns
    using that
  proof (induction ns)
    case Nil
    show ?case by simp
  next
    case (Cons a ns)
    then have "a \<in> set chs" by simp
    from LayerCollection[OF this] Cons show ?case by simp
  qed
  then show ?case by simp
qed

lemma below_of_hierarchy:
  assumes "find_layer_collection t (coll_id x) = Some n" "hierarchy_of n = x"
  shows "below_ids t (coll_id x) = map coll_id (get_all_nested_collections x)"
proof -
  obtain k e p chs where n: "n = LayerCollection k e p chs" by (cases n)
  have "layer_ids n = k # concat (map layer_ids chs)" by (simp add: n)
  with ids_of_hierarchy[of n] assms(2)
  have "concat (map layer_ids chs) = map coll_id (get_all_nested_collections x)" by simp
  with assms(1) show ?thesis by (simp add: below_ids_def below_node_def n)
qed

text \<open>In the traversal every collection is followed at once by the collections nested in
  it.\<close>

lemma nested_follow:
  "get_all_nested_collections c = pre @ y # post \<Longrightarrow>
     \<exists>rest. post = get_all_nested_collections y @ rest"
  "nested_of_children cs = pre @ y # post \<Longrightarrow>
     \<exists>rest. post = get_all_nested_collections y @ rest"
proof (induction c and cs arbitrary: pre post and pre post
       rule: get_all_nested_collections_nested_of_children.induct)
  case (1 k chs)
  then show ?case by simp
next
  case 2
  then show ?case by simp
next
  case (3 ch chs)
  show ?case
  proof (cases pre)
    case Nil
    with 3(3) have "post = get_all_nested_collections y @ nested_of_children chs" by auto
    then show ?thesis by blast
  next
    case (Cons a pre')
    with 3(3) have eq: "get_all_nested_collections ch @ nested_of_children chs = pre' @ y # post"
      by auto
    then consider
      (left) us where "get_all_nested_collections ch = pre' @ y # us"
        "post = us @ nested_of_children chs"
      | (right) us where "pre' = get_all_nested_collections ch @ us"
        "nested_of_children chs = us @ y # post"
      by (auto simp: append_eq_append_conv2 append_eq_Cons_conv Cons_eq_append_conv)
    then show ?thesis
    proof cases
      case left
      from 3(1)[OF left(1)] left(2) show ?thesis by auto
    next
      case right
      from 3(2)[OF right(2)] show ?thesis .
    qed
  qed
qed

lemma nested_closed:
  assumes "get_all_nested_collections c = pre @ y # post"
  shows "set (get_all_nested_collections y) \<subseteq> set post"
  using nested_follow(1)[OF assms] by auto

lemma nested_nested:
  assumes "y \<in> set (get_all_nested_collections c)"
  shows "set (get_all_nested_collections y) \<subseteq> set (get_all_nested_collections c)"
proof -
  from assms obtain pre post where s: "get_all_nested_collections c = pre @ y # post"
    by (auto simp: in_set_conv_decomp)
  from nested_closed[OF s] show ?thesis unfolding s by auto
qed

section \<open>Sequences of assignments to exclusion flags\<close>

lemma erase_flags_writes: "erase_flags (fold assign_flag W t) = erase_flags t"
  by (induction W arbitrary: t) (auto simp: erase_flags_assign)

lemmas writes_shape = same_shape[OF erase_flags_writes]
lemmas assign_shape = same_shape[OF erase_flags_assign(1)]

lemma writes_untouched:
  assumes "\<And>x. x \<in> fst ` set W \<Longrightarrow> \<not> covers t x m"
  shows "exclude_of (fold assign_flag W t) m = exclude_of t m"
  using assms
proof (induction W arbitrary: t)
  case Nil
  show ?case by simp
next
  case (Cons w W)
  obtain x v where w: "w = (x, v)" by (cases w)
  have "\<not> covers (assign_exclude t x v) y m" if "y \<in> fst ` set W" for y
    using Cons.prems[of y] that by (simp add: assign_shape)
  from Cons.IH[OF this] have "exclude_of (fold assign_flag W (assign_exclude t x v)) m =
      exclude_of (assign_exclude t x v) m" by simp
  moreover have "\<not> covers t x m" using Cons.prems[of x] by (simp add: w)
  ultimately show ?case by (simp add: w exclude_of_assign_frame)
qed

lemma writes_last_direct:
  assumes "exclude_of t m \<noteq> None"
    and "\<And>x. x \<in> fst ` set W2 \<Longrightarrow> \<not> covers t x m"
  shows "exclude_of (fold assign_flag (W1 @ (m, v) # W2) t) m = Some v"
proof -
  let ?t1 = "fold assign_flag W1 t"
  let ?t2 = "assign_exclude ?t1 m v"
  have "exclude_of ?t1 m \<noteq> None" using assms(1) by (simp add: writes_shape)
  then have direct: "exclude_of ?t2 m = Some v" by (rule exclude_of_assign_self)
  have "\<not> covers ?t2 x m" if "x \<in> fst ` set W2" for x
    using assms(2)[OF that] by (simp add: assign_shape writes_shape)
  from writes_untouched[of W2 ?t2 m, OF this] direct show ?thesis by simp
qed

lemma writes_true_stay:
  "\<forall>v \<in> snd ` set W. v \<Longrightarrow> exclude_of t m = Some True \<Longrightarrow>
     exclude_of (fold assign_flag W t) m = Some True"
proof (induction W arbitrary: t)
  case Nil
  then show ?case by simp
next
  case (Cons w W)
  obtain x v where w: "w = (x, v)" by (cases w)
  have v: "v" using Cons.prems(1) by (simp add: w)
  have "exclude_of (assign_exclude t x True) m = Some True"
    using exclude_of_true_or_same[of t x m] Cons.prems(2) by auto
  moreover have "\<forall>v \<in> snd ` set W. v" using Cons.prems(1) by simp
  ultimately have "exclude_of (fold assign_flag W (assign_exclude t x True)) m = Some True"
    by (rule Cons.IH[rotated])
  with v show ?case by (simp add: w)
qed

lemma writes_direct_true:
  assumes "exclude_of t m \<noteq> None" "m \<in> fst ` set W" "\<forall>v \<in> snd ` set W. v"
  shows "exclude_of (fold assign_flag W t) m = Some True"
proof -
  from assms(2) obtain v where "(m, v) \<in> set W" by auto
  then obtain W1 W2 where W: "W = W1 @ (m, v) # W2" by (auto simp: in_set_conv_decomp)
  have v: "v" using assms(3) by (force simp: W)
  let ?t2 = "assign_exclude (fold assign_flag W1 t) m True"
  have "exclude_of (fold assign_flag W1 t) m \<noteq> None" using assms(1) by (simp add: writes_shape)
  then have "exclude_of ?t2 m = Some True" by (rule exclude_of_assign_self)
  moreover have "\<forall>v \<in> snd ` set W2. v" using assms(3) by (force simp: W)
  ultimately have "exclude_of (fold assign_flag W2 ?t2) m = Some True"
    by (rule writes_true_stay[rotated])
  with v show ?thesis by (simp add: W)
qed

lemma writes_hit_true:
  assumes "distinct (layer_ids t)" "x \<in> fst ` set W" "covers t x m"
    and "\<forall>v \<in> snd ` set W. v"
  shows "exclude_of (fold assign_flag W t) m = Some True"
proof -
  from assms(2) obtain v where "(x, v) \<in> set W" by auto
  then obtain W1 W2 where W: "W = W1 @ (x, v) # W2" by (auto simp: in_set_conv_decomp)
  have v: "v" using assms(4) by (force simp: W)
  let ?t1 = "fold assign_flag W1 t"
  let ?t2 = "assign_exclude ?t1 x True"
  have d: "distinct (layer_ids ?t1)" using assms(1) by (simp add: writes_shape)
  have c: "covers ?t1 x m" using assms(3) by (simp add: writes_shape)
  have "exclude_of ?t2 m = Some True"
  proof (cases "m = x")
    case True
    from c have "exclude_of ?t1 x \<noteq> None" by (simp add: covers_def)
    then have "exclude_of ?t2 x = Some True" by (rule exclude_of_assign_self)
    with True show ?thesis by simp
  next
    case False
    with c have "m \<in> set (below_ids ?t1 x)" by (simp add: covers_def)
    with d show ?thesis by (rule exclude_of_assign_cascade)
  qed
  moreover have "\<forall>v \<in> snd ` set W2. v" using assms(4) by (force simp: W)
  ultimately have "exclude_of (fold assign_flag W2 ?t2) m = Some True"
    by (rule writes_true_stay[rotated])
  with v show ?thesis by (simp add: W)
qed

lemma writes_None:
  "exclude_of (fold assign_flag W t) d = None \<longleftrightarrow> exclude_of t d = None"
  by (rule writes_shape)

section \<open>What a snapshot records\<close>

lemma snapshot_store_loop:
  "snapshot_writes (store_loop t colls) =
     List.map_filter (\<lambda>c. map_option (\<lambda>b. (coll_id c, b)) (exclude_of t (coll_id c))) colls"
  by (induction colls)
     (auto simp: snapshot_writes_def exclude_of_def split: option.splits)

lemma map_filter_split:
  "List.map_filter f xs = ys1 @ y # ys2 \<Longrightarrow>
     \<exists>xs1 x xs2. xs = xs1 @ x # xs2 \<and> f x = Some y \<and> List.map_filter f xs2 = ys2"
proof (induction xs arbitrary: ys1)
  case Nil
  then show ?case by simp
next
  case (Cons a xs)
  show ?case
  proof (cases "f a")
    case None
    with Cons.prems have "List.map_filter f xs = ys1 @ y # ys2" by simp
    from Cons.IH[OF this] obtain xs1 x xs2 where
      "xs = xs1 @ x # xs2" "f x = Some y" "List.map_filter f xs2 = ys2" by blast
    then have "a # xs = (a # xs1) @ x # xs2 \<and> f x = Some y \<and> List.map_filter f xs2 = ys2"
      by simp
    then show ?thesis by blast
  next
    case (Some b)
    with Cons.prems have eq: "b # List.map_filter f xs = ys1 @ y # ys2" by simp
    show ?thesis
    proof (cases ys1)
      case Nil
      with eq Some have "a # xs = [] @ a # xs \<and> f a = Some y \<and> List.map_filter f xs = ys2"
        by simp
      then show ?thesis by blast
    next
      case (Cons b' ys1')
      with eq have "List.map_filter f xs = ys1' @ y # ys2" by simp
      from Cons.IH[OF this] obtain xs1 x xs2 where
        "xs = xs1 @ x # xs2" "f x = Some y" "List.map_filter f xs2 = ys2" by blast
      then have "a # xs = (a # xs1) @ x # xs2 \<and> f x = Some y \<and> List.map_filter f xs2 = ys2"
        by simp
      then show ?thesis by blast
    qed
  qed
qed

lemma set_map_filter:
  "set (List.map_filter f xs) = {y. \<exists>x \<in> set xs. f x = Some y}"
  by (induction xs) (auto split: option.splits)

lemma nested_as_hierarchyD:
  assumes "nested_as_hierarchy t c" "y \<in> set (c # get_all_nested_collections c)"
    and "exclude_of t (coll_id y) \<noteq> None"
  shows "below_ids t (coll_id y) = map coll_id (get_all_nested_collections y)"
proof -
  from assms(3) obtain n where n: "find_layer_collection t (coll_id y) = Some n"
    by (auto simp: exclude_of_def)
  from assms(1,2) have "case find_layer_collection t (coll_id y) of
                          None \<Rightarrow> True | Some n \<Rightarrow> hierarchy_of n = y"
    unfolding nested_as_hierarchy_def list_all_iff by blast
  with n have "hierarchy_of n = y" by simp
  with n show ?thesis by (rule below_of_hierarchy)
qed

lemma nested_as_hierarchy_shape:
  assumes "erase_flags t' = erase_flags t"
  shows "nested_as_hierarchy t' c = nested_as_hierarchy t c"
proof -
  have "(case find_layer_collection t' (coll_id x) of None \<Rightarrow> True | Some n \<Rightarrow> hierarchy_of n = x) =
        (case find_layer_collection t (coll_id x) of None \<Rightarrow> True | Some n \<Rightarrow> hierarchy_of n = x)"
    for x
    using same_shape(6)[OF assms, of "coll_id x"]
    by (cases "find_layer_collection t' (coll_id x)"; cases "find_layer_collection t (coll_id x)")
       simp_all
  then show ?thesis by (simp add: nested_as_hierarchy_def)
qed

text \<open>
  Restoring the snapshot that was taken of the collections nested in \<open>c\<close>, in a tree of the
  same shape: every nested collection is assigned its recorded flag after all collections
  above it, so it ends with the flag it had when the snapshot was taken.
\<close>

lemma restore_stored:
  assumes h: "nested_as_hierarchy t c"
    and shape: "erase_flags t' = erase_flags t"
    and x: "x \<in> set (get_all_nested_collections c)"
  shows "exclude_of (fold assign_flag
             (snapshot_writes (store_loop t (get_all_nested_collections c))) t') (coll_id x) =
         exclude_of t (coll_id x)"
proof (cases "exclude_of t (coll_id x)")
  case None
  then have "exclude_of t' (coll_id x) = None" by (simp add: same_shape(4)[OF shape])
  with None show ?thesis by (simp add: writes_None)
next
  case (Some b)
  let ?D = "get_all_nested_collections c"
  let ?f = "\<lambda>c. map_option (\<lambda>b. (coll_id c, b)) (exclude_of t (coll_id c))"
  let ?W = "List.map_filter ?f ?D"
  have W: "snapshot_writes (store_loop t ?D) = ?W" by (rule snapshot_store_loop)
  from x Some have "(coll_id x, b) \<in> set ?W" by (force simp: set_map_filter)
  then have "\<exists>w \<in> set ?W. fst w = coll_id x" by force
  from split_list_last_prop[OF this] obtain W1 w W2 where
    split: "?W = W1 @ w # W2" and w: "fst w = coll_id x"
    and last: "\<forall>z \<in> set W2. fst z \<noteq> coll_id x" by blast
  from map_filter_split[OF split] obtain D1 x' D2 where
    D: "?D = D1 @ x' # D2" and fx: "?f x' = Some w" and W2: "List.map_filter ?f D2 = W2"
    by blast
  from fx w Some have wv: "w = (coll_id x, b)" by (cases "exclude_of t (coll_id x')") auto
  have untouched: "\<not> covers t' y (coll_id x)" if y: "y \<in> fst ` set W2" for y
  proof
    assume "covers t' y (coll_id x)"
    then have cov: "covers t y (coll_id x)" by (simp add: same_shape(5)[OF shape])
    from y W2 obtain y' where y': "y' \<in> set D2" "y = coll_id y'" "exclude_of t y \<noteq> None"
      by (force simp: set_map_filter)
    from y last have "y \<noteq> coll_id x" by force
    with cov have below: "coll_id x \<in> set (below_ids t y)" by (auto simp: covers_def)
    from y'(1) D have "y' \<in> set (c # ?D)" by simp
    from nested_as_hierarchyD[OF h this] y'(2,3)
    have "below_ids t y = map coll_id (get_all_nested_collections y')" by simp
    with below obtain z where z: "z \<in> set (get_all_nested_collections y')" "coll_id z = coll_id x"
      by auto
    from y'(1) obtain E1 E2 where E: "D2 = E1 @ y' # E2" by (auto simp: in_set_conv_decomp)
    with D have "?D = (D1 @ x' # E1) @ y' # E2" by simp
    from nested_closed[OF this] z(1) E have "z \<in> set D2" by auto
    moreover from z(2) Some have "?f z = Some (coll_id x, b)" by simp
    ultimately have "(coll_id x, b) \<in> set (List.map_filter ?f D2)"
      unfolding set_map_filter by blast
    with W2 last show False by force
  qed
  have "exclude_of t' (coll_id x) \<noteq> None" using Some by (simp add: same_shape(4)[OF shape])
  from writes_last_direct[OF this untouched, of W2 W1 b] Some show ?thesis
    by (simp only: W split wv)
qed

lemma snapshot_ids:
  "x \<in> fst ` set (snapshot_writes (store_loop t colls)) \<longleftrightarrow>
     x \<in> coll_id ` set colls \<and> exclude_of t x \<noteq> None"
  unfolding snapshot_store_loop set_map_filter by force

lemma restore_stored_others:
  assumes h: "nested_as_hierarchy t c"
    and shape: "erase_flags t' = erase_flags t"
    and m: "m \<notin> coll_id ` set (get_all_nested_collections c)"
  shows "exclude_of (fold assign_flag
             (snapshot_writes (store_loop t (get_all_nested_collections c))) t') m =
         exclude_of t' m"
proof (rule writes_untouched)
  fix x
  assume "x \<in> fst ` set (snapshot_writes (store_loop t (get_all_nested_collections c)))"
  then obtain y where y: "y \<in> set (get_all_nested_collections c)" "x = coll_id y"
    and res: "exclude_of t x \<noteq> None"
    by (auto simp: snapshot_ids)
  from y(1) have "y \<in> set (c # get_all_nested_collections c)" by simp
  from nested_as_hierarchyD[OF h this] res y(2)
  have below: "below_ids t x = map coll_id (get_all_nested_collections y)" by simp
  show "\<not> covers t' x m"
  proof
    assume "covers t' x m"
    then have "covers t x m" by (simp add: same_shape(5)[OF shape])
    then have "m = x \<or> m \<in> set (below_ids t x)" by (simp add: covers_def)
    then show False
    proof
      assume "m = x"
      with y m show False by simp
    next
      assume "m \<in> set (below_ids t x)"
      with below obtain z where "z \<in> set (get_all_nested_collections y)" "m = coll_id z" by auto
      with nested_nested[OF y(1)] m show False by auto
    qed
  qed
qed

lemma restore_stored_flags:
  assumes "nested_as_hierarchy t c" "erase_flags t' = erase_flags t"
  shows "exclude_of (fold assign_flag
             (snapshot_writes (store_loop t (get_all_nested_collections c))) t') m =
         (if m \<in> coll_id ` set (get_all_nested_collections c) then exclude_of t m
          else exclude_of t' m)"
proof (cases "m \<in> coll_id ` set (get_all_nested_collections c)")
  case True
  then obtain x where "x \<in> set (get_all_nested_collections c)" "m = coll_id x" by auto
  with restore_stored[OF assms, of x] True show ?thesis by simp
next
  case False
  with restore_stored_others[OF assms False] show ?thesis by simp
qed

section \<open>What each step leaves alone\<close>

lemma subscript_in_range: "0 \<le> i \<Longrightarrow> i < int (length xs) \<Longrightarrow> subscript xs i = Some (nat i)"
  by (simp add: subscript_def)

lemma subscript_bound: "subscript xs i = Some k \<Longrightarrow> k < length xs"
  by (auto simp: subscript_def Let_def split: if_splits)

lemma store_frame [simp]:
  "view_layer (store_nested_states s k) = view_layer s"
  "objects (store_nested_states s k) = objects s"
  "amarillo_active_outfit_index (store_nested_states s k) = amarillo_active_outfit_index s"
  "amarillo_managed_models (store_nested_states s k) = amarillo_managed_models s"
  "amarillo_active_model_index (store_nested_states s k) = amarillo_active_model_index s"
  "length (amarillo_outfits (store_nested_states s k)) = length (amarillo_outfits s)"
  by (simp_all add: store_nested_states_def Let_def split: option.splits)

lemma reset_frame [simp]:
  "view_layer (reset_outfit_shape_keys s k) = view_layer s"
  "amarillo_outfits (reset_outfit_shape_keys s k) = amarillo_outfits s"
  "amarillo_active_outfit_index (reset_outfit_shape_keys s k) = amarillo_active_outfit_index s"
  "amarillo_managed_models (reset_outfit_shape_keys s k) = amarillo_managed_models s"
  "amarillo_active_model_index (reset_outfit_shape_keys s k) = amarillo_active_model_index s"
  by (simp_all add: reset_outfit_shape_keys_def)

lemma disable_frame [simp]:
  "objects (disable_all s) = objects s"
  "amarillo_outfits (disable_all s) = amarillo_outfits s"
  "amarillo_active_outfit_index (disable_all s) = amarillo_active_outfit_index s"
  "amarillo_managed_models (disable_all s) = amarillo_managed_models s"
  "amarillo_active_model_index (disable_all s) = amarillo_active_model_index s"
  by (simp_all add: disable_all_def)

lemma restore_frame [simp]:
  "objects (restore_nested_states s k) = objects s"
  "amarillo_outfits (restore_nested_states s k) = amarillo_outfits s"
  "amarillo_active_outfit_index (restore_nested_states s k) = amarillo_active_outfit_index s"
  "amarillo_managed_models (restore_nested_states s k) = amarillo_managed_models s"
  "amarillo_active_model_index (restore_nested_states s k) = amarillo_active_model_index s"
  by (simp_all add: restore_nested_states_def Let_def split: option.splits)

lemma enable_frame [simp]:
  "objects (enable_target s k) = objects s"
  "amarillo_outfits (enable_target s k) = amarillo_outfits s"
  "amarillo_active_outfit_index (enable_target s k) = amarillo_active_outfit_index s"
  "amarillo_managed_models (enable_target s k) = amarillo_managed_models s"
  "amarillo_active_model_index (enable_target s k) = amarillo_active_model_index s"
  by (simp_all add: enable_target_def split: option.splits)

lemma apply_frame [simp]:
  "view_layer (apply_shape_keys s k) = view_layer s"
  "amarillo_outfits (apply_shape_keys s k) = amarillo_outfits s"
  "amarillo_active_outfit_index (apply_shape_keys s k) = amarillo_active_outfit_index s"
  "amarillo_managed_models (apply_shape_keys s k) = amarillo_managed_models s"
  "amarillo_active_model_index (apply_shape_keys s k) = amarillo_active_model_index s"
  by (simp_all add: apply_shape_keys_def)

text \<open>The selected-outfit operator as one composition of the five steps.\<close>

lemma activate_execute_eq:
  "subscript (amarillo_outfits s) (amarillo_active_outfit_index s) = Some k \<Longrightarrow>
   activate_execute s =
     Inr (FINISHED, apply_shape_keys (enable_target (disable_all
            (reset_outfit_shape_keys (store_nested_states s k) k)) k) k)"
  by (simp add: activate_execute_def Let_def)

lemma quick_activate_selected:
  assumes "0 \<le> i" "i < int (length (amarillo_outfits s))" "amarillo_active_outfit_index s = i"
  shows "quick_activate_execute s i = activate_execute s"
proof -
  let ?k = "nat i"
  let ?s4 = "apply_shape_keys (enable_target (disable_all
            (reset_outfit_shape_keys (store_nested_states s ?k) ?k)) ?k) ?k"
  have sub: "subscript (amarillo_outfits s) i = Some ?k"
    using assms by (simp add: subscript_in_range)
  have "amarillo_active_outfit_index ?s4 = i" using assms by simp
  then have "?s4\<lparr>amarillo_active_outfit_index := i\<rparr> = ?s4" by simp
  then show ?thesis
    using assms sub by (simp add: quick_activate_execute_def activate_execute_def Let_def)
qed

section \<open>Writes keep the shape of the scene\<close>

lemma erase_flags_restore: "erase_flags (fold restore_step sts t) = erase_flags t"
  by (induction sts arbitrary: t) (simp_all add: restore_step_def erase_flags_assign split: option.splits)

lemma erase_flags_disable: "erase_flags (fold disable_step outfits t) = erase_flags t"
  by (induction outfits arbitrary: t) (simp_all add: disable_step_def erase_flags_assign split: option.splits)

lemma erase_assign_value:
  "map (\<lambda>kb. kb\<lparr>kb_value := 0\<rparr>) (assign_value kbs n v) = map (\<lambda>kb. kb\<lparr>kb_value := 0\<rparr>) kbs"
  by (induction kbs) simp_all

lemma erase_weights_set:
  "erase_weights (set_shape_key_value objs m n v ob) = erase_weights (objs ob)"
  by (simp add: set_shape_key_value_def erase_weights_def erase_assign_value split: option.splits)

lemma erase_weights_fold:
  "erase_weights (fold (\<lambda>e objs. set_shape_key_value objs (sk_model e) (sk_name e) (f e)) es objs ob) =
   erase_weights (objs ob)"
  by (induction es arbitrary: objs) (simp_all add: erase_weights_set)

lemma frame_layer [simp]:
  "erase_flags (view_layer (disable_all s)) = erase_flags (view_layer s)"
  "erase_flags (view_layer (restore_nested_states s k)) = erase_flags (view_layer s)"
  "erase_flags (view_layer (enable_target s k)) = erase_flags (view_layer s)"
  by (simp_all add: disable_all_def restore_nested_states_def enable_target_def Let_def
      erase_flags_disable erase_flags_restore erase_flags_assign split: option.splits)

lemma frame_objects [simp]:
  "erase_weights (objects (reset_outfit_shape_keys s k) ob) = erase_weights (objects s ob)"
  "erase_weights (objects (apply_shape_keys s k) ob) = erase_weights (objects s ob)"
  by (simp_all add: reset_outfit_shape_keys_def apply_shape_keys_def erase_weights_fold)

lemma store_outfits:
  "map strip_snapshot (amarillo_outfits (store_nested_states s k)) =
     map strip_snapshot (amarillo_outfits s)"
  "i \<noteq> k \<Longrightarrow> amarillo_outfits (store_nested_states s k) ! i = amarillo_outfits s ! i"
proof -
  have "map strip_snapshot (xs[k := (xs ! k)\<lparr>o_nested_states := sts\<rparr>]) = map strip_snapshot xs"
    for xs sts
  proof (cases "k < length xs")
    case True
    then show ?thesis
      by (auto simp: list_eq_iff_nth_eq nth_list_update strip_snapshot_def)
  next
    case False
    then have "xs[k := (xs ! k)\<lparr>o_nested_states := sts\<rparr>] = xs"
      by (intro list_update_beyond) simp
    then show ?thesis by simp
  qed
  then show "map strip_snapshot (amarillo_outfits (store_nested_states s k)) =
     map strip_snapshot (amarillo_outfits s)"
    by (simp add: store_nested_states_def Let_def split: option.splits)
  show "i \<noteq> k \<Longrightarrow> amarillo_outfits (store_nested_states s k) ! i = amarillo_outfits s ! i"
    by (simp add: store_nested_states_def Let_def split: option.splits)
qed

lemma transition_frame:
  "activation_frame (Some p) s
     (apply_shape_keys (enable_target (disable_all
        (reset_outfit_shape_keys (store_nested_states s p) p)) k) k)"
  by (simp add: activation_frame_def store_outfits)

lemma transition_frame_fresh:
  "activation_frame None s (apply_shape_keys (enable_target (disable_all s) k) k)"
  by (simp add: activation_frame_def)

lemma activation_frame_index:
  "activation_frame p s s' \<Longrightarrow> activation_frame p s (s'\<lparr>amarillo_active_outfit_index := i\<rparr>)"
  by (simp add: activation_frame_def)

section \<open>Loops as sequences of writes\<close>

lemma fold_as_writes:
  "fold (\<lambda>x t. case g x of None \<Rightarrow> t | Some (k, v) \<Rightarrow> wr t k v) xs t =
   fold (\<lambda>(k, v) t. wr t k v) (List.map_filter g xs) t"
  by (induction xs arbitrary: t) (auto split: option.splits)

lemma restore_as_writes: "fold restore_step sts t = fold assign_flag (snapshot_writes sts) t"
proof -
  have "restore_step = (\<lambda>st t. case map_option (\<lambda>c. (coll_id c, ns_was_excluded st)) (ns_collection st) of
                                   None \<Rightarrow> t | Some (k, v) \<Rightarrow> assign_exclude t k v)"
    by (auto simp: restore_step_def fun_eq_iff split: option.splits)
  then show ?thesis
    using fold_as_writes[where g = "\<lambda>st. map_option (\<lambda>c. (coll_id c, ns_was_excluded st)) (ns_collection st)"
            and wr = assign_exclude and xs = sts and t = t]
    by (simp add: snapshot_writes_def)
qed

lemma disable_as_writes: "fold disable_step outfits t = fold assign_flag (disable_writes outfits) t"
proof -
  have "disable_step = (\<lambda>outfit t. case map_option (\<lambda>d. (d, True)) (bound_id outfit) of
                                   None \<Rightarrow> t | Some (k, v) \<Rightarrow> assign_exclude t k v)"
    by (auto simp: disable_step_def bound_id_def fun_eq_iff split: option.splits)
  then show ?thesis
    using fold_as_writes[where g = "\<lambda>outfit. map_option (\<lambda>d. (d, True)) (bound_id outfit)"
            and wr = assign_exclude and xs = outfits and t = t]
    by (simp add: disable_writes_def)
qed

section \<open>Shape-key weights as a store\<close>

text \<open>
  Shape-key weights are written one key at a time, a write to a key that does not resolve
  is skipped, and a write leaves the value normalised by the key. The facts below hold
  for any such store with read function \<open>rd\<close>, write function \<open>wr\<close> and normalisation
  \<open>nrm\<close>.
\<close>

lemma fold_writes_nrm:
  assumes nrm_wr: "\<And>t k v k' v'. nrm (wr t k v) k' v' = nrm t k' v'"
  shows "nrm (fold (\<lambda>(k, v) t. wr t k v) W t) k v = nrm t k v"
  by (induction W arbitrary: t) (auto simp: nrm_wr)

lemma fold_writes_read:
  assumes rd_wr: "\<And>t k v k'. rd (wr t k v) k' =
                    (if k' = k then map_option (\<lambda>_. nrm t k v) (rd t k) else rd t k')"
    and nrm_wr: "\<And>t k v k' v'. nrm (wr t k v) k' v' = nrm t k' v'"
  shows "rd (fold (\<lambda>(k, v) t. wr t k v) W t) k =
           (case map_of (rev W) k of
              None \<Rightarrow> rd t k
            | Some v \<Rightarrow> map_option (\<lambda>_. nrm t k v) (rd t k))"
proof (induction W rule: rev_induct)
  case Nil
  show ?case by simp
next
  case (snoc x W)
  obtain k' v' where x: "x = (k', v')" by (cases x)
  have n: "nrm (fold (\<lambda>(k, v) t. wr t k v) W t) k v' = nrm t k v'"
    by (rule fold_writes_nrm) (rule nrm_wr)
  show ?case
    using snoc n
    by (auto simp: x rd_wr option.map_comp comp_def split: option.splits)
qed

lemma fold_writes_absorb:
  assumes over: "\<And>t k v v'. wr (wr t k v) k v' = wr t k v'"
    and comm: "\<And>t k k' v v'. k \<noteq> k' \<Longrightarrow> wr (wr t k v) k' v' = wr (wr t k' v') k v"
  shows "k \<in> fst ` set W \<Longrightarrow>
         fold (\<lambda>(k, v) t. wr t k v) W (wr t k v) = fold (\<lambda>(k, v) t. wr t k v) W t"
proof (induction W arbitrary: t)
  case Nil
  then show ?case by simp
next
  case (Cons x W)
  obtain k' v' where x: "x = (k', v')" by (cases x)
  show ?case
  proof (cases "k' = k")
    case True
    then show ?thesis by (simp add: x over)
  next
    case False
    with Cons.prems x have "k \<in> fst ` set W" by auto
    from Cons.IH[OF this, of "wr t k' v'"] False show ?thesis
      by (simp add: x comm[of k k'])
  qed
qed

lemma fold_writes_noop:
  assumes same: "\<And>t k v. rd t k = Some (nrm t k v) \<Longrightarrow> wr t k v = t"
    and absent: "\<And>t k v. rd t k = None \<Longrightarrow> wr t k v = t"
    and over: "\<And>t k v v'. wr (wr t k v) k v' = wr t k v'"
    and comm: "\<And>t k k' v v'. k \<noteq> k' \<Longrightarrow> wr (wr t k v) k' v' = wr (wr t k' v') k v"
  shows "(\<And>k v. map_of (rev W) k = Some v \<Longrightarrow> rd t k = Some (nrm t k v) \<or> rd t k = None) \<Longrightarrow>
         fold (\<lambda>(k, v) t. wr t k v) W t = t"
proof (induction W)
  case Nil
  show ?case by simp
next
  case (Cons x W)
  obtain k v where x: "x = (k, v)" by (cases x)
  have later: "rd t k' = Some (nrm t k' v') \<or> rd t k' = None" if "map_of (rev W) k' = Some v'" for k' v'
    using Cons.prems[of k' v'] that by (simp add: x)
  show ?case
  proof (cases "k \<in> fst ` set W")
    case True
    from fold_writes_absorb[of wr, OF over comm True]
    have "fold (\<lambda>(k, v) t. wr t k v) W (wr t k v) = fold (\<lambda>(k, v) t. wr t k v) W t" by simp
    with Cons.IH[OF later] show ?thesis by (simp add: x)
  next
    case False
    then have "map_of (rev W) k = None" by (simp add: map_of_eq_None_iff)
    then have "map_of (rev (x # W)) k = Some v" by (simp add: x map_add_def)
    from Cons.prems[OF this] have "wr t k v = t" using same absent by blast
    with Cons.IH[OF later] show ?thesis by (simp add: x)
  qed
qed

lemma get_assign_value:
  "map_option kb_value (key_blocks_get (assign_value kbs n v) n') =
     (if n' = n
      then map_option (\<lambda>kb. clamp_value (kb_slider_min kb) (kb_slider_max kb) v) (key_blocks_get kbs n)
      else map_option kb_value (key_blocks_get kbs n'))"
  by (induction kbs) auto

lemma slider_assign_value:
  "map_option (\<lambda>kb. (kb_slider_min kb, kb_slider_max kb)) (key_blocks_get (assign_value kbs n v) n') =
   map_option (\<lambda>kb. (kb_slider_min kb, kb_slider_max kb)) (key_blocks_get kbs n')"
  by (induction kbs) auto

lemma assign_value_same:
  "key_blocks_get kbs n = Some kb \<Longrightarrow>
   kb_value kb = clamp_value (kb_slider_min kb) (kb_slider_max kb) v \<Longrightarrow>
   assign_value kbs n v = kbs"
  by (induction kbs) (auto split: if_splits)

lemma assign_value_absent: "key_blocks_get kbs n = None \<Longrightarrow> assign_value kbs n v = kbs"
  by (induction kbs) (auto split: if_splits)

lemma get_assign_value_None:
  "key_blocks_get (assign_value kbs n v) n' = None \<longleftrightarrow> key_blocks_get kbs n' = None"
  using get_assign_value[of kbs n v n'] by (auto split: if_splits)

lemma assign_value_overwrite: "assign_value (assign_value kbs n v) n v' = assign_value kbs n v'"
  by (induction kbs) auto

lemma assign_value_commute:
  "n \<noteq> n' \<Longrightarrow> assign_value (assign_value kbs n v) n' v' = assign_value (assign_value kbs n' v') n v"
  by (induction kbs) auto

lemma slider_clamp_block:
  "ob_shape_keys (objs m) = Some kbs \<Longrightarrow> key_blocks_get kbs n = Some kb \<Longrightarrow>
   slider_clamp objs (m, n) v = clamp_value (kb_slider_min kb) (kb_slider_max kb) v"
  by (simp add: slider_clamp_def)

lemma slider_clamp_set:
  "slider_clamp (set_shape_key_value objs (Some m) n v) key v' = slider_clamp objs key v'"
proof (cases "ob_shape_keys (objs m)")
  case None
  then show ?thesis by (simp add: set_shape_key_value_def)
next
  case (Some kbs)
  show ?thesis
  proof (cases "key_blocks_get kbs n")
    case None
    with Some show ?thesis by (simp add: set_shape_key_value_def)
  next
    case (Some kb)
    note kb = this
    show ?thesis
    proof (cases "fst key = m")
      case False
      with \<open>ob_shape_keys (objs m) = Some kbs\<close> kb show ?thesis
        by (simp add: set_shape_key_value_def slider_clamp_def)
    next
      case True
      have "(case key_blocks_get (assign_value kbs n v) (snd key) of None \<Rightarrow> v'
             | Some kb \<Rightarrow> clamp_value (kb_slider_min kb) (kb_slider_max kb) v') =
            (case key_blocks_get kbs (snd key) of None \<Rightarrow> v'
             | Some kb \<Rightarrow> clamp_value (kb_slider_min kb) (kb_slider_max kb) v')"
        using slider_assign_value[of kbs n v "snd key"]
        by (cases "key_blocks_get (assign_value kbs n v) (snd key)";
            cases "key_blocks_get kbs (snd key)") simp_all
      with True \<open>ob_shape_keys (objs m) = Some kbs\<close> kb show ?thesis
        by (simp add: set_shape_key_value_def slider_clamp_def)
    qed
  qed
qed

lemma weight_of_set:
  "weight_of (set_shape_key_value objs (Some m) n v) key' =
     (if key' = (m, n) then map_option (\<lambda>_. slider_clamp objs (m, n) v) (weight_of objs (m, n))
      else weight_of objs key')"
  by (cases key')
     (auto simp: weight_of_def set_shape_key_value_def get_assign_value slider_clamp_def
           option.map_comp comp_def split: option.splits)

lemma set_weight_same:
  "weight_of objs (m, n) = Some (slider_clamp objs (m, n) v) \<Longrightarrow>
   set_shape_key_value objs (Some m) n v = objs"
  by (auto simp: weight_of_def set_shape_key_value_def slider_clamp_def assign_value_same
      fun_eq_iff split: option.splits)

lemma set_weight_absent: "weight_of objs (m, n) = None \<Longrightarrow> set_shape_key_value objs (Some m) n v = objs"
  by (auto simp: weight_of_def set_shape_key_value_def split: option.splits)

lemma set_weight_overwrite:
  "set_shape_key_value (set_shape_key_value objs (Some m) n v) (Some m) n v' =
   set_shape_key_value objs (Some m) n v'"
  by (auto simp: set_shape_key_value_def assign_value_overwrite get_assign_value_None
           split: option.splits)

lemma set_weight_commute:
  "(m, n) \<noteq> (m', n') \<Longrightarrow>
   set_shape_key_value (set_shape_key_value objs (Some m) n v) (Some m') n' v' =
   set_shape_key_value (set_shape_key_value objs (Some m') n' v') (Some m) n v"
  by (auto simp: set_shape_key_value_def assign_value_commute get_assign_value_None fun_upd_twist
           assign_value_absent split: option.splits)

lemma weight_of_writes:
  "weight_of (fold assign_weight W objs) key =
     (case map_of (rev W) key of
        None \<Rightarrow> weight_of objs key
      | Some v \<Rightarrow> map_option (\<lambda>_. slider_clamp objs key v) (weight_of objs key))"
proof -
  have "weight_of (fold (\<lambda>(k, v) t. set_shape_key_value t (Some (fst k)) (snd k) v) W objs) key =
     (case map_of (rev W) key of
        None \<Rightarrow> weight_of objs key
      | Some v \<Rightarrow> map_option (\<lambda>_. slider_clamp objs key v) (weight_of objs key))"
    by (rule fold_writes_read[where rd = weight_of and nrm = slider_clamp
          and wr = "\<lambda>t k v. set_shape_key_value t (Some (fst k)) (snd k) v"])
       (auto simp: weight_of_set slider_clamp_set)
  then show ?thesis by simp
qed

lemma slider_clamp_writes:
  "slider_clamp (fold assign_weight W objs) key v = slider_clamp objs key v"
proof -
  have "slider_clamp (fold (\<lambda>(k, v) t. set_shape_key_value t (Some (fst k)) (snd k) v) W objs) key v =
        slider_clamp objs key v"
    by (rule fold_writes_nrm[where nrm = slider_clamp
          and wr = "\<lambda>t k v. set_shape_key_value t (Some (fst k)) (snd k) v"])
       (rule slider_clamp_set)
  then show ?thesis by simp
qed

lemma writes_leave_objects:
  assumes "\<And>key v. map_of (rev W) key = Some v \<Longrightarrow>
             weight_of objs key = Some (slider_clamp objs key v) \<or> weight_of objs key = None"
  shows "fold assign_weight W objs = objs"
proof -
  have "fold (\<lambda>(k, v) t. set_shape_key_value t (Some (fst k)) (snd k) v) W objs = objs"
  proof (rule fold_writes_noop[where rd = weight_of and nrm = slider_clamp
          and wr = "\<lambda>t k v. set_shape_key_value t (Some (fst k)) (snd k) v" and W = W and t = objs])
    fix t :: "object_id \<Rightarrow> mesh_object" and k :: "object_id \<times> string" and v :: real
    show "weight_of t k = Some (slider_clamp t k v) \<Longrightarrow>
          set_shape_key_value t (Some (fst k)) (snd k) v = t"
      using set_weight_same[of t "fst k" "snd k" v] by simp
    show "weight_of t k = None \<Longrightarrow> set_shape_key_value t (Some (fst k)) (snd k) v = t"
      using set_weight_absent[of t "fst k" "snd k" v] by simp
  next
    fix t :: "object_id \<Rightarrow> mesh_object" and k :: "object_id \<times> string" and v v' :: real
    show "set_shape_key_value (set_shape_key_value t (Some (fst k)) (snd k) v) (Some (fst k)) (snd k) v' =
          set_shape_key_value t (Some (fst k)) (snd k) v'"
      by (rule set_weight_overwrite)
  next
    fix t :: "object_id \<Rightarrow> mesh_object" and k k' :: "object_id \<times> string" and v v' :: real
    show "k \<noteq> k' \<Longrightarrow>
          set_shape_key_value (set_shape_key_value t (Some (fst k)) (snd k) v) (Some (fst k')) (snd k') v' =
          set_shape_key_value (set_shape_key_value t (Some (fst k')) (snd k') v') (Some (fst k)) (snd k) v"
      using set_weight_commute[of "fst k" "snd k" "fst k'" "snd k'" t v v'] by simp
  next
    fix k v
    show "map_of (rev W) k = Some v \<Longrightarrow> weight_of objs k = Some (slider_clamp objs k v) \<or> weight_of objs k = None"
      by (rule assms)
  qed
  then show ?thesis by simp
qed

lemma set_weight_unset [simp]: "set_shape_key_value objs None n v = objs"
  by (simp add: set_shape_key_value_def)

lemma apply_as_writes:
  "fold (\<lambda>e objs. set_shape_key_value objs (sk_model e) (sk_name e) (sk_value e)) es objs =
   fold assign_weight (override_writes es) objs"
proof (induction es arbitrary: objs)
  case Nil
  show ?case by (simp add: override_writes_def)
next
  case (Cons e es)
  then show ?case
    by (cases "sk_model e") (simp_all add: override_writes_def)
qed

lemma reset_as_writes:
  "fold (\<lambda>e objs. set_shape_key_value objs (sk_model e) (sk_name e) 0) es objs =
   fold assign_weight (zero_writes es) objs"
proof (induction es arbitrary: objs)
  case Nil
  show ?case by (simp add: zero_writes_def)
next
  case (Cons e es)
  then show ?case
    by (cases "sk_model e") (simp_all add: zero_writes_def)
qed

lemma zero_writes_keys: "fst ` set (zero_writes es) = fst ` set (override_writes es)"
  by (induction es) (auto simp: zero_writes_def override_writes_def split: option.splits)


section \<open>One activation as a list of writes\<close>

lemma subscript_some:
  "- int (length xs) \<le> i \<Longrightarrow> i < int (length xs) \<Longrightarrow> \<exists>k. subscript xs i = Some k"
  by (cases "0 \<le> i") (simp_all add: subscript_def Let_def)

lemma disable_writes_simps [simp]:
  "disable_writes [] = []"
  "disable_writes (outfit # outfits) =
     (case bound_id outfit of
        None \<Rightarrow> disable_writes outfits
      | Some d \<Rightarrow> (d, True) # disable_writes outfits)"
  by (simp_all add: disable_writes_def split: option.splits)

lemma snapshot_writes_simps [simp]:
  "snapshot_writes [] = []"
  "snapshot_writes (st # sts) =
     (case ns_collection st of
        None \<Rightarrow> snapshot_writes sts
      | Some c \<Rightarrow> (coll_id c, ns_was_excluded st) # snapshot_writes sts)"
  by (simp_all add: snapshot_writes_def split: option.splits)

lemma override_writes_simps [simp]:
  "override_writes [] = []"
  "override_writes (e # es) =
     (case sk_model e of
        None \<Rightarrow> override_writes es
      | Some m \<Rightarrow> ((m, sk_name e), sk_value e) # override_writes es)"
  by (simp_all add: override_writes_def split: option.splits)

lemma zero_writes_simps [simp]:
  "zero_writes [] = []"
  "zero_writes (e # es) =
     (case sk_model e of
        None \<Rightarrow> zero_writes es
      | Some m \<Rightarrow> ((m, sk_name e), 0) # zero_writes es)"
  by (simp_all add: zero_writes_def split: option.splits)

lemma activate_execute_transition:
  "activate_execute s =
     (case subscript (amarillo_outfits s) (amarillo_active_outfit_index s) of
        None \<Rightarrow> Inl IndexError
      | Some k \<Rightarrow> Inr (FINISHED, transition s (Some k) k))"
  by (simp add: activate_execute_def transition_def Let_def split: option.splits)

lemma quick_activate_execute_transition:
  assumes "subscript (amarillo_outfits s) outfit_index = Some k"
    and "outfit_index < int (length (amarillo_outfits s))"
    and "- int (length (amarillo_outfits s)) \<le> amarillo_active_outfit_index s"
  shows "quick_activate_execute s outfit_index =
           Inr (FINISHED, (transition s (previous_outfit s) k)
                            \<lparr>amarillo_active_outfit_index := outfit_index\<rparr>)"
proof (cases "amarillo_active_outfit_index s < int (length (amarillo_outfits s))")
  case True
  with assms(3) obtain p where p: "subscript (amarillo_outfits s) (amarillo_active_outfit_index s) = Some p"
    using subscript_some[of "amarillo_outfits s" "amarillo_active_outfit_index s"] by blast
  with True assms show ?thesis
    by (simp add: quick_activate_execute_def transition_def previous_outfit_def Let_def)
next
  case False
  with assms show ?thesis
    by (simp add: quick_activate_execute_def transition_def previous_outfit_def Let_def)
qed

lemma bound_id_strip [simp]: "bound_id (strip_snapshot outfit) = bound_id outfit"
  by (simp add: bound_id_def strip_snapshot_def)

lemma disable_writes_strip: "disable_writes (map strip_snapshot outfits) = disable_writes outfits"
  by (induction outfits) (simp_all split: option.splits)

lemma store_disable_writes [simp]:
  "disable_writes (amarillo_outfits (store_nested_states s p)) = disable_writes (amarillo_outfits s)"
  using store_outfits(1)[of s p] disable_writes_strip by metis

lemma store_nth_fields [simp]:
  "o_collection (amarillo_outfits (store_nested_states s p) ! i) = o_collection (amarillo_outfits s ! i)"
  "o_shape_keys (amarillo_outfits (store_nested_states s p) ! i) = o_shape_keys (amarillo_outfits s ! i)"
proof -
  have "amarillo_outfits (store_nested_states s p) ! i = amarillo_outfits s ! i \<or>
        (\<exists>sts. amarillo_outfits (store_nested_states s p) ! i = (amarillo_outfits s ! i)\<lparr>o_nested_states := sts\<rparr>)"
  proof (cases "p < length (amarillo_outfits s)")
    case True
    then show ?thesis
      by (cases "i = p") (auto simp: store_nested_states_def Let_def split: option.splits)
  next
    case False
    then have "(amarillo_outfits s)[p := x] = amarillo_outfits s" for x
      by (intro list_update_beyond) simp
    then show ?thesis
      by (simp add: store_nested_states_def Let_def split: option.splits)
  qed
  then show "o_collection (amarillo_outfits (store_nested_states s p) ! i) = o_collection (amarillo_outfits s ! i)"
    "o_shape_keys (amarillo_outfits (store_nested_states s p) ! i) = o_shape_keys (amarillo_outfits s ! i)"
    by auto
qed

lemma store_snapshot:
  assumes "p < length (amarillo_outfits s)" "o_collection (amarillo_outfits s ! p) = Some c"
  shows "o_nested_states (amarillo_outfits (store_nested_states s p) ! p) =
           store_loop (view_layer s) (get_all_nested_collections c)"
  using assms by (simp add: store_nested_states_def Let_def)

lemma store_snapshot_other:
  "i \<noteq> p \<or> o_collection (amarillo_outfits s ! p) = None \<Longrightarrow>
   o_nested_states (amarillo_outfits (store_nested_states s p) ! i) =
     o_nested_states (amarillo_outfits s ! i)"
  by (auto simp: store_nested_states_def Let_def split: option.splits)

lemma transition_outfits:
  "amarillo_outfits (transition s previous k) =
     (case previous of None \<Rightarrow> amarillo_outfits s
      | Some p \<Rightarrow> amarillo_outfits (store_nested_states s p))"
  by (simp add: transition_def split: option.splits)

lemma transition_fields [simp]:
  "amarillo_managed_models (transition s previous k) = amarillo_managed_models s"
  "amarillo_active_model_index (transition s previous k) = amarillo_active_model_index s"
  "amarillo_active_outfit_index (transition s previous k) = amarillo_active_outfit_index s"
  "length (amarillo_outfits (transition s previous k)) = length (amarillo_outfits s)"
  "bound_id (amarillo_outfits (transition s previous k) ! i) = bound_id (amarillo_outfits s ! i)"
  "o_shape_keys (amarillo_outfits (transition s previous k) ! i) = o_shape_keys (amarillo_outfits s ! i)"
  "disable_writes (amarillo_outfits (transition s previous k)) = disable_writes (amarillo_outfits s)"
  by (simp_all add: transition_def bound_id_def split: option.splits)

lemma enable_view_layer:
  "view_layer (enable_target s k) =
     fold assign_flag
       (case bound_id (amarillo_outfits s ! k) of
          None \<Rightarrow> []
        | Some d \<Rightarrow>
            if exclude_of (view_layer s) d = None then []
            else (d, False) # snapshot_writes (o_nested_states (amarillo_outfits s ! k)))
       (view_layer s)"
  by (auto simp: enable_target_def restore_nested_states_def bound_id_def exclude_of_def
      restore_as_writes Let_def split: option.splits)

lemma transition_view_layer:
  "view_layer (transition s previous k) =
     fold assign_flag
       (transition_writes (amarillo_outfits (transition s previous k)) (view_layer s) k)
       (view_layer s)"
proof -
  let ?s1 = "case previous of None \<Rightarrow> s
             | Some p \<Rightarrow> reset_outfit_shape_keys (store_nested_states s p) p"
  have v1: "view_layer ?s1 = view_layer s" by (simp split: option.splits)
  have o1: "amarillo_outfits (transition s previous k) = amarillo_outfits ?s1"
    by (simp add: transition_def)
  have "view_layer (transition s previous k) = view_layer (enable_target (disable_all ?s1) k)"
    by (simp add: transition_def)
  also have "\<dots> = fold assign_flag
       (case bound_id (amarillo_outfits ?s1 ! k) of
          None \<Rightarrow> []
        | Some d \<Rightarrow>
            if exclude_of (view_layer s) d = None then []
            else (d, False) # snapshot_writes (o_nested_states (amarillo_outfits ?s1 ! k)))
       (fold assign_flag (disable_writes (amarillo_outfits ?s1)) (view_layer s))"
    by (simp add: enable_view_layer disable_all_def disable_as_writes v1 writes_None
        split: option.splits)
  finally show ?thesis
    by (simp add: transition_writes_def enable_writes_def o1)
qed

lemma transition_objects:
  "objects (transition s previous k) =
     fold assign_weight
       ((case previous of None \<Rightarrow> []
         | Some p \<Rightarrow> zero_writes (o_shape_keys (amarillo_outfits s ! p))) @
        override_writes (o_shape_keys (amarillo_outfits s ! k)))
       (objects s)"
  by (cases previous)
     (simp_all add: transition_def apply_shape_keys_def reset_outfit_shape_keys_def
        apply_as_writes reset_as_writes)


lemma transition_resolvable:
  "exclude_of (view_layer (transition s previous k)) d = None \<longleftrightarrow> exclude_of (view_layer s) d = None"
  by (simp only: transition_view_layer writes_None)

lemma transition_shape:
  "erase_flags (view_layer (transition s previous k)) = erase_flags (view_layer s)"
  by (simp only: transition_view_layer erase_flags_writes)

lemma quick_activate_result:
  assumes "0 \<le> outfit_index" "outfit_index < int (length (amarillo_outfits s))"
    and "quick_activate_execute s outfit_index = Inr (r, s')"
  shows "r = FINISHED \<and>
         s' = (transition s (previous_outfit s) (nat outfit_index))
                \<lparr>amarillo_active_outfit_index := outfit_index\<rparr>"
proof -
  have sub: "subscript (amarillo_outfits s) outfit_index = Some (nat outfit_index)"
    using assms by (simp add: subscript_in_range)
  have "- int (length (amarillo_outfits s)) \<le> amarillo_active_outfit_index s"
  proof (rule ccontr)
    assume "\<not> ?thesis"
    then have "quick_activate_execute s outfit_index = Inl IndexError"
      using assms(2) by (simp add: quick_activate_execute_def subscript_def Let_def)
    with assms(3) show False by simp
  qed
  from quick_activate_execute_transition[OF sub assms(2) this] assms(3) show ?thesis by simp
qed



section \<open>The flags after the hide-all pass and after the restore\<close>

lemma hide_pass:
  assumes "distinct (layer_ids t)" "\<forall>v \<in> snd ` set W. v"
  shows "exclude_of (fold assign_flag W t) m =
           (if \<exists>x \<in> fst ` set W. covers t x m then Some True else exclude_of t m)"
proof (cases "\<exists>x \<in> fst ` set W. covers t x m")
  case True
  then obtain x where "x \<in> fst ` set W" "covers t x m" by blast
  from writes_hit_true[OF assms(1) this assms(2)] True show ?thesis by simp
next
  case False
  then have "\<And>x. x \<in> fst ` set W \<Longrightarrow> \<not> covers t x m" by blast
  from writes_untouched[of W t m, OF this] False show ?thesis by simp
qed

lemma disable_writes_true: "\<forall>v \<in> snd ` set (disable_writes outfits). v"
  by (induction outfits) (auto split: option.splits)

lemma find_distinct:
  "find_layer_collection t c = Some n \<Longrightarrow> distinct (layer_ids t) \<Longrightarrow> distinct (layer_ids n)"
  "find_in_children ts c = Some n \<Longrightarrow> distinct (concat (map layer_ids ts)) \<Longrightarrow>
     distinct (layer_ids n)"
  by (induction t c and ts c rule: find_layer_collection_find_in_children.induct)
     (auto split: option.splits if_splits)

lemma not_below_self:
  assumes "distinct (layer_ids t)"
  shows "c \<notin> set (below_ids t c)"
proof (cases "find_layer_collection t c")
  case None
  then show ?thesis by (simp add: below_ids_def below_node_def)
next
  case (Some n)
  obtain k e p chs where n: "n = LayerCollection k e p chs" by (cases n)
  from find_root_id(1)[OF Some] n have "k = c" by simp
  moreover from find_distinct(1)[OF Some assms] n have "k \<notin> set (concat (map layer_ids chs))"
    by simp
  ultimately show ?thesis using Some n by (simp add: below_ids_def below_node_def)
qed

text \<open>Assignments to a collection nested in \<open>c\<close> reach only collections nested in \<open>c\<close>.\<close>

lemma nested_region:
  assumes h: "nested_as_hierarchy t c"
    and y: "y \<in> set (get_all_nested_collections c)"
    and cov: "covers t (coll_id y) m"
  shows "m \<in> coll_id ` set (get_all_nested_collections c)"
proof -
  from cov have res: "exclude_of t (coll_id y) \<noteq> None"
    and m: "m = coll_id y \<or> m \<in> set (below_ids t (coll_id y))"
    by (simp_all add: covers_def)
  from y have "y \<in> set (c # get_all_nested_collections c)" by simp
  from nested_as_hierarchyD[OF h this res]
  have "below_ids t (coll_id y) = map coll_id (get_all_nested_collections y)" .
  with m nested_nested[OF y] y show ?thesis by auto
qed

lemma root_region:
  assumes h: "nested_as_hierarchy t c" and cov: "covers t (coll_id c) m"
  shows "m = coll_id c \<or> m \<in> coll_id ` set (get_all_nested_collections c)"
proof -
  from cov have res: "exclude_of t (coll_id c) \<noteq> None"
    and m: "m = coll_id c \<or> m \<in> set (below_ids t (coll_id c))"
    by (simp_all add: covers_def)
  from nested_as_hierarchyD[OF h _ res]
  have "below_ids t (coll_id c) = map coll_id (get_all_nested_collections c)" by simp
  with m show ?thesis by auto
qed

text \<open>
  The writes that follow the hide-all pass when the target is bound to \<open>c\<close>: the flag of
  \<open>c\<close> is cleared and a snapshot \<open>Ws\<close> that records only collections nested in \<open>c\<close> is
  restored.
\<close>

lemma enable_outside:
  assumes h: "nested_as_hierarchy t c"
    and within: "fst ` set Ws \<subseteq> coll_id ` set (get_all_nested_collections c)"
    and m: "m \<noteq> coll_id c" "m \<notin> coll_id ` set (get_all_nested_collections c)"
  shows "exclude_of (fold assign_flag ((coll_id c, False) # Ws) t) m = exclude_of t m"
proof (rule writes_untouched)
  fix x
  assume "x \<in> fst ` set ((coll_id c, False) # Ws)"
  then have "x = coll_id c \<or> x \<in> coll_id ` set (get_all_nested_collections c)"
    using within by auto
  then show "\<not> covers t x m"
  proof
    assume "x = coll_id c"
    with root_region[OF h, of m] m show ?thesis by auto
  next
    assume "x \<in> coll_id ` set (get_all_nested_collections c)"
    then obtain y where "y \<in> set (get_all_nested_collections c)" "x = coll_id y" by auto
    with nested_region[OF h, of y m] m show ?thesis by auto
  qed
qed

lemma enable_root:
  assumes h: "nested_as_hierarchy t c"
    and within: "fst ` set Ws \<subseteq> coll_id ` set (get_all_nested_collections c)"
    and res: "exclude_of t (coll_id c) \<noteq> None"
    and apart: "coll_id c \<notin> coll_id ` set (get_all_nested_collections c)"
  shows "exclude_of (fold assign_flag ((coll_id c, False) # Ws) t) (coll_id c) = Some False"
proof -
  have "\<not> covers t x (coll_id c)" if "x \<in> fst ` set Ws" for x
  proof -
    from that within obtain y where "y \<in> set (get_all_nested_collections c)" "x = coll_id y"
      by auto
    with nested_region[OF h, of y "coll_id c"] apart show ?thesis by auto
  qed
  from writes_last_direct[OF res this, of Ws "[]" False] show ?thesis by simp
qed

lemma root_apart:
  assumes "distinct (layer_ids t)" "nested_as_hierarchy t c" "exclude_of t (coll_id c) \<noteq> None"
  shows "coll_id c \<notin> coll_id ` set (get_all_nested_collections c)"
proof -
  from nested_as_hierarchyD[OF assms(2) _ assms(3)]
  have "below_ids t (coll_id c) = map coll_id (get_all_nested_collections c)" by simp
  with not_below_self[OF assms(1), of "coll_id c"] show ?thesis by simp
qed

section \<open>Activating the active outfit again\<close>

lemma transition_index:
  "transition (s\<lparr>amarillo_active_outfit_index := i\<rparr>) previous k =
     (transition s previous k)\<lparr>amarillo_active_outfit_index := i\<rparr>"
  by (cases previous)
     (simp_all add: transition_def apply_shape_keys_def enable_target_def
        restore_nested_states_def disable_all_def reset_outfit_shape_keys_def
        store_nested_states_def Let_def split: option.splits)

lemma quick_activate_finished:
  assumes "quick_activate_execute s outfit_index = Inr (FINISHED, s1)"
  shows "\<exists>k. subscript (amarillo_outfits s) outfit_index = Some k \<and>
             outfit_index < int (length (amarillo_outfits s)) \<and>
             s1 = (transition s (previous_outfit s) k)\<lparr>amarillo_active_outfit_index := outfit_index\<rparr>"
  using assms
  by (auto simp: quick_activate_execute_def transition_def previous_outfit_def Let_def
      split: if_splits option.splits)

lemma activate_finished:
  assumes "activate_execute s = Inr (r, s1)"
  shows "\<exists>k. subscript (amarillo_outfits s) (amarillo_active_outfit_index s) = Some k \<and>
             previous_outfit s = Some k \<and> r = FINISHED \<and> s1 = transition s (Some k) k"
  using assms
  by (auto simp: activate_execute_transition previous_outfit_def subscript_def Let_def
      split: option.splits if_splits)

text \<open>The flags one transition leaves, for a target whose collection has a node and whose
  snapshot, as it is restored, records only collections nested in that collection.\<close>

lemma transition_flags_bound:
  assumes u: "distinct (layer_ids (view_layer s))"
    and c: "o_collection (amarillo_outfits s ! k) = Some c"
    and res: "exclude_of (view_layer s) (coll_id c) \<noteq> None"
    and h: "nested_as_hierarchy (view_layer s) c"
    and within: "fst ` set (snapshot_writes (o_nested_states (amarillo_outfits (transition s previous k) ! k)))
                   \<subseteq> coll_id ` set (get_all_nested_collections c)"
  shows "exclude_of (view_layer (transition s previous k)) (coll_id c) = Some False"
    and "m \<noteq> coll_id c \<Longrightarrow> m \<notin> coll_id ` set (get_all_nested_collections c) \<Longrightarrow>
         exclude_of (view_layer (transition s previous k)) m =
           (if \<exists>x \<in> fst ` set (disable_writes (amarillo_outfits s)). covers (view_layer s) x m
            then Some True else exclude_of (view_layer s) m)"
proof -
  let ?t = "view_layer s"
  let ?Wd = "disable_writes (amarillo_outfits s)"
  let ?Ws = "snapshot_writes (o_nested_states (amarillo_outfits (transition s previous k) ! k))"
  let ?t' = "fold assign_flag ?Wd ?t"
  have "bound_id (amarillo_outfits s ! k) = Some (coll_id c)"
    using c by (simp add: bound_id_def)
  then have b: "bound_id (amarillo_outfits (transition s previous k) ! k) = Some (coll_id c)"
    by simp
  have W: "transition_writes (amarillo_outfits (transition s previous k)) ?t k =
             ?Wd @ (coll_id c, False) # ?Ws"
    using b res by (simp add: transition_writes_def enable_writes_def)
  have v: "view_layer (transition s previous k) = fold assign_flag ((coll_id c, False) # ?Ws) ?t'"
    by (simp only: transition_view_layer[of s previous k] W fold_append comp_def)
  have shape: "erase_flags ?t' = erase_flags ?t" by (rule erase_flags_writes)
  have h': "nested_as_hierarchy ?t' c" using h by (simp add: nested_as_hierarchy_shape[OF shape])
  have res': "exclude_of ?t' (coll_id c) \<noteq> None" using res by (simp add: writes_None)
  have apart: "coll_id c \<notin> coll_id ` set (get_all_nested_collections c)"
    using u h res by (rule root_apart)
  show "exclude_of (view_layer (transition s previous k)) (coll_id c) = Some False"
    unfolding v using h' within res' apart by (rule enable_root)
  assume m: "m \<noteq> coll_id c" "m \<notin> coll_id ` set (get_all_nested_collections c)"
  have "exclude_of (view_layer (transition s previous k)) m = exclude_of ?t' m"
    unfolding v using h' within m by (rule enable_outside)
  also have "\<dots> = (if \<exists>x \<in> fst ` set ?Wd. covers ?t x m then Some True else exclude_of ?t m)"
    using u disable_writes_true by (rule hide_pass)
  finally show "exclude_of (view_layer (transition s previous k)) m =
           (if \<exists>x \<in> fst ` set ?Wd. covers ?t x m then Some True else exclude_of ?t m)" .
qed

lemma transition_flags_hidden:
  assumes u: "distinct (layer_ids (view_layer s))"
    and c: "\<forall>c. o_collection (amarillo_outfits s ! k) = Some c \<longrightarrow>
                exclude_of (view_layer s) (coll_id c) = None"
  shows "exclude_of (view_layer (transition s previous k)) m =
           (if \<exists>x \<in> fst ` set (disable_writes (amarillo_outfits s)). covers (view_layer s) x m
            then Some True else exclude_of (view_layer s) m)"
proof -
  have "bound_id (amarillo_outfits s ! k) = None \<or>
        (\<exists>d. bound_id (amarillo_outfits s ! k) = Some d \<and> exclude_of (view_layer s) d = None)"
    using c by (cases "o_collection (amarillo_outfits s ! k)") (simp_all add: bound_id_def)
  then have "bound_id (amarillo_outfits (transition s previous k) ! k) = None \<or>
        (\<exists>d. bound_id (amarillo_outfits (transition s previous k) ! k) = Some d \<and>
             exclude_of (view_layer s) d = None)"
    by simp
  then have "transition_writes (amarillo_outfits (transition s previous k)) (view_layer s) k =
          disable_writes (amarillo_outfits s)"
    by (auto simp: transition_writes_def enable_writes_def)
  then have "view_layer (transition s previous k) =
               fold assign_flag (disable_writes (amarillo_outfits s)) (view_layer s)"
    by (simp only: transition_view_layer[of s previous k])
  then show ?thesis using hide_pass[OF u disable_writes_true] by simp
qed

lemma fresh_snapshot_within:
  assumes "k < length (amarillo_outfits s)" "o_collection (amarillo_outfits s ! k) = Some c"
  shows "fst ` set (snapshot_writes (o_nested_states (amarillo_outfits (transition s (Some k) k) ! k)))
           \<subseteq> coll_id ` set (get_all_nested_collections c)"
proof
  fix x
  have "o_nested_states (amarillo_outfits (transition s (Some k) k) ! k) =
          store_loop (view_layer s) (get_all_nested_collections c)"
    using assms by (simp add: transition_outfits store_snapshot)
  moreover assume "x \<in> fst ` set (snapshot_writes
                     (o_nested_states (amarillo_outfits (transition s (Some k) k) ! k)))"
  ultimately show "x \<in> coll_id ` set (get_all_nested_collections c)"
    by (simp only: snapshot_ids)
qed

lemma kept_snapshot_within:
  assumes "previous \<noteq> Some k" "o_collection (amarillo_outfits s ! k) = Some c"
    "snapshot_within (amarillo_outfits s ! k)"
  shows "fst ` set (snapshot_writes (o_nested_states (amarillo_outfits (transition s previous k) ! k)))
           \<subseteq> coll_id ` set (get_all_nested_collections c)"
proof -
  have "o_nested_states (amarillo_outfits (transition s previous k) ! k) =
        o_nested_states (amarillo_outfits s ! k)"
    using assms(1) by (cases previous) (simp_all add: transition_outfits store_snapshot_other)
  with assms(2,3) show ?thesis
    by (auto simp: snapshot_within_def list_all_iff)
qed

lemma reactivate_flags:
  assumes k: "k < length (amarillo_outfits s)"
    and u: "distinct (layer_ids (view_layer s))"
    and h: "\<forall>c. o_collection (amarillo_outfits s ! k) = Some c \<longrightarrow>
                nested_as_hierarchy (view_layer s) c"
    and within: "previous = Some k \<or> snapshot_within (amarillo_outfits s ! k)"
  shows "exclude_of (view_layer (transition (transition s previous k) (Some k) k)) m =
         exclude_of (view_layer (transition s previous k)) m"
proof -
  let ?s1 = "transition s previous k"
  let ?s2 = "transition ?s1 (Some k) k"
  let ?t = "view_layer s" and ?t1 = "view_layer ?s1"
  have shape: "erase_flags ?t1 = erase_flags ?t" by (rule transition_shape)
  have u1: "distinct (layer_ids ?t1)" using u by (simp add: same_shape(1)[OF shape])
  have k1: "k < length (amarillo_outfits ?s1)" using k by simp
  have col1: "o_collection (amarillo_outfits ?s1 ! k) = o_collection (amarillo_outfits s ! k)"
    by (cases previous) (simp_all add: transition_outfits)
  have dw: "disable_writes (amarillo_outfits ?s1) = disable_writes (amarillo_outfits s)" by simp
  have cov: "covers ?t1 x m = covers ?t x m" for x by (rule same_shape(5)[OF shape])
  define hit where "hit \<longleftrightarrow> (\<exists>x \<in> fst ` set (disable_writes (amarillo_outfits s)). covers ?t x m)"
  have hit1: "(\<exists>x \<in> fst ` set (disable_writes (amarillo_outfits ?s1)). covers ?t1 x m) \<longleftrightarrow> hit"
    by (simp only: dw cov hit_def)
  have hidden: "(if hit then Some True else (if hit then Some True else exclude_of ?t m)) =
                (if hit then Some True else exclude_of ?t m)"
    by simp
  show ?thesis
  proof (cases "\<exists>c. o_collection (amarillo_outfits s ! k) = Some c \<and>
                    exclude_of ?t (coll_id c) \<noteq> None")
    case False
    then have n0: "\<forall>c. o_collection (amarillo_outfits s ! k) = Some c \<longrightarrow>
                exclude_of ?t (coll_id c) = None" by blast
    then have n1: "\<forall>c. o_collection (amarillo_outfits ?s1 ! k) = Some c \<longrightarrow>
                exclude_of ?t1 (coll_id c) = None"
      by (simp add: col1 transition_resolvable)
    from transition_flags_hidden[OF u1 n1, of "Some k" m]
      transition_flags_hidden[OF u n0, of previous m] hidden
    show ?thesis by (simp only: hit1 hit_def[symmetric])
  next
    case True
    then obtain c where c: "o_collection (amarillo_outfits s ! k) = Some c"
      and res: "exclude_of ?t (coll_id c) \<noteq> None" by blast
    from h c have hc: "nested_as_hierarchy ?t c" by blast
    have c1: "o_collection (amarillo_outfits ?s1 ! k) = Some c" using c col1 by simp
    have res1: "exclude_of ?t1 (coll_id c) \<noteq> None" using res by (simp add: transition_resolvable)
    have hc1: "nested_as_hierarchy ?t1 c" using hc by (simp add: nested_as_hierarchy_shape[OF shape])
    have w0: "fst ` set (snapshot_writes (o_nested_states (amarillo_outfits ?s1 ! k)))
                \<subseteq> coll_id ` set (get_all_nested_collections c)"
    proof (cases "previous = Some k")
      case True
      with fresh_snapshot_within[OF k c] show ?thesis by simp
    next
      case False
      with within have "snapshot_within (amarillo_outfits s ! k)" by simp
      with False c show ?thesis by (rule kept_snapshot_within)
    qed
    have w1: "fst ` set (snapshot_writes (o_nested_states (amarillo_outfits ?s2 ! k)))
                \<subseteq> coll_id ` set (get_all_nested_collections c)"
      using k1 c1 by (rule fresh_snapshot_within)
    note first = transition_flags_bound[OF u c res hc w0]
    note second = transition_flags_bound[OF u1 c1 res1 hc1 w1]
    show ?thesis
    proof (cases "m \<in> coll_id ` set (get_all_nested_collections c)")
      case True
      let ?Wd = "disable_writes (amarillo_outfits ?s1)"
      let ?D = "get_all_nested_collections c"
      have snap: "o_nested_states (amarillo_outfits ?s2 ! k) = store_loop ?t1 ?D"
        using k1 c1 by (simp add: transition_outfits store_snapshot)
      have "bound_id (amarillo_outfits s ! k) = Some (coll_id c)"
        using c by (simp add: bound_id_def)
      then have b: "bound_id (amarillo_outfits ?s2 ! k) = Some (coll_id c)"
        by simp
      have W: "transition_writes (amarillo_outfits ?s2) ?t1 k =
                 (?Wd @ [(coll_id c, False)]) @ snapshot_writes (store_loop ?t1 ?D)"
        using b res1 by (simp add: transition_writes_def enable_writes_def snap)
      let ?t' = "fold assign_flag (?Wd @ [(coll_id c, False)]) ?t1"
      have v: "view_layer ?s2 = fold assign_flag (snapshot_writes (store_loop ?t1 ?D)) ?t'"
        by (simp only: transition_view_layer[of ?s1 "Some k" k] W fold_append comp_def)
      have "erase_flags ?t' = erase_flags ?t1" by (rule erase_flags_writes)
      from restore_stored_flags[OF hc1 this, of m] True show ?thesis
        by (simp only: v if_True)
    next
      case False
      note out = this
      show ?thesis
      proof (cases "m = coll_id c")
        case True
        with first(1) second(1) show ?thesis by simp
      next
        case False
        from first(2)[OF False out] second(2)[OF False out] hidden show ?thesis
          by (simp only: hit1 hit_def[symmetric])
      qed
    qed
  qed
qed

lemma reapply_objects:
  "objects (transition (transition s previous k) (Some k) k) = objects (transition s previous k)"
proof -
  let ?es = "o_shape_keys (amarillo_outfits s ! k)"
  let ?Z = "case previous of None \<Rightarrow> []
            | Some p \<Rightarrow> zero_writes (o_shape_keys (amarillo_outfits s ! p))"
  let ?Wa = "?Z @ override_writes ?es"
  let ?Wb = "zero_writes ?es @ override_writes ?es"
  let ?s1 = "transition s previous k"
  have o1: "objects ?s1 = fold assign_weight ?Wa (objects s)"
    by (simp only: transition_objects)
  have e: "o_shape_keys (amarillo_outfits ?s1 ! k) = ?es" by simp
  have "objects (transition ?s1 (Some k) k) = fold assign_weight ?Wb (objects ?s1)"
    by (simp only: transition_objects[of ?s1 "Some k" k] option.case e)
  also have "\<dots> = objects ?s1"
  proof (rule writes_leave_objects)
    fix key v
    assume a: "map_of (rev ?Wb) key = Some v"
    have "key \<in> fst ` set (override_writes ?es)"
    proof (rule ccontr)
      assume n: "key \<notin> fst ` set (override_writes ?es)"
      then have "key \<notin> fst ` set (zero_writes ?es)" by (simp add: zero_writes_keys)
      with n have "map_of (rev ?Wb) key = None" by (simp add: map_of_eq_None_iff image_Un)
      with a show False by simp
    qed
    then obtain v' where v': "map_of (rev (override_writes ?es)) key = Some v'"
      by (cases "map_of (rev (override_writes ?es)) key") (auto simp: map_of_eq_None_iff)
    with a have vv: "v' = v" by (simp add: map_add_def)
    from v' have l0: "map_of (rev ?Wa) key = Some v'" by (simp add: map_add_def)
    have "weight_of (objects ?s1) key =
          (case map_of (rev ?Wa) key of None \<Rightarrow> weight_of (objects s) key
           | Some v \<Rightarrow> map_option (\<lambda>_. slider_clamp (objects s) key v) (weight_of (objects s) key))"
      unfolding o1 by (rule weight_of_writes)
    moreover have "slider_clamp (objects ?s1) key v = slider_clamp (objects s) key v"
      unfolding o1 by (rule slider_clamp_writes)
    ultimately show "weight_of (objects ?s1) key = Some (slider_clamp (objects ?s1) key v) \<or>
                     weight_of (objects ?s1) key = None"
      using l0 vv by (cases "weight_of (objects s) key") simp_all
  qed
  finally show ?thesis .
qed

section \<open>Unfolding the operators on concrete scenes\<close>

lemmas run_defs =
  quick_activate_execute_def activate_execute_def subscript_def Let_def
  store_nested_states_def reset_outfit_shape_keys_def disable_all_def disable_step_def
  enable_target_def restore_nested_states_def restore_step_def apply_shape_keys_def
  set_shape_key_value_def

lemmas scene_defs =
  demo_scene_def demo_casual_def demo_formal_outfit_def demo_body_def demo_formal_def
  demo_layer_def twin_outfit_def shoes_outfit_def body_snapshot_def

section \<open>Snapshot and restore\<close>

text \<open>
  C7. For an outfit with a bound collection, in a view layer whose nodes for that
  collection and the collections nested in it are nested as the host builds them from
  the hierarchy, taking the nested-visibility snapshot and restoring it at once leaves
  the exclusion flag of every descendant of the bound collection as it was, and the flag
  of every other collection as well. (The restore assigns the flags in the order of the
  traversal, and every assignment sets the flags below it too; each descendant is
  assigned its own recorded flag after all collections above it.)
\<close>

theorem snapshot_restore_roundtrip:
  assumes "k < length (amarillo_outfits s)"
    and "o_collection (amarillo_outfits s ! k) = Some c"
    and "nested_as_hierarchy (view_layer s) c"
  shows "(\<forall>d \<in> set (get_all_nested_collections c).
            exclude_of (view_layer (restore_nested_states (store_nested_states s k) k)) (coll_id d) =
            exclude_of (view_layer s) (coll_id d)) \<and>
         (\<forall>m. exclude_of (view_layer (restore_nested_states (store_nested_states s k) k)) m =
               exclude_of (view_layer s) m)"
proof -
  let ?t = "view_layer s"
  have v: "view_layer (restore_nested_states (store_nested_states s k) k) =
           fold assign_flag (snapshot_writes (store_loop ?t (get_all_nested_collections c))) ?t"
    using assms(1,2)
    by (simp add: restore_nested_states_def store_nested_states_def restore_as_writes)
  have "exclude_of (view_layer (restore_nested_states (store_nested_states s k) k)) m =
        exclude_of ?t m" for m
    unfolding v using restore_stored_flags[OF assms(3) refl, of m] by simp
  then show ?thesis by simp
qed

theorem snapshot_restore_roundtrip_witness:
  "0 < length (amarillo_outfits demo_scene) \<and>
   o_collection (amarillo_outfits demo_scene ! 0) = Some demo_body \<and>
   nested_as_hierarchy (view_layer demo_scene) demo_body \<and>
   get_all_nested_collections demo_body =
     [Collection 2 [], Collection 3 [Collection 4 []], Collection 4 []] \<and>
   exclude_of (view_layer (restore_nested_states (store_nested_states demo_scene 0) 0)) 2 = Some True \<and>
   exclude_of (view_layer (restore_nested_states (store_nested_states demo_scene 0) 0)) 3 = Some False \<and>
   exclude_of (view_layer (restore_nested_states (store_nested_states demo_scene 0) 0)) 4 = Some False"
proof -
  have h1: "0 < length (amarillo_outfits demo_scene)" by (simp add: demo_scene_def)
  have h2: "o_collection (amarillo_outfits demo_scene ! 0) = Some demo_body"
    by (simp add: demo_scene_def demo_casual_def)
  have h3: "nested_as_hierarchy (view_layer demo_scene) demo_body"
    by (simp add: nested_as_hierarchy_def demo_scene_def demo_layer_def demo_body_def)
  have d: "get_all_nested_collections demo_body =
     [Collection 2 [], Collection 3 [Collection 4 []], Collection 4 []]"
    by (simp add: demo_body_def)
  have e: "exclude_of (view_layer demo_scene) 2 = Some True"
    "exclude_of (view_layer demo_scene) 3 = Some False"
    "exclude_of (view_layer demo_scene) 4 = Some False"
    by (simp_all add: exclude_of_def demo_scene_def demo_layer_def)
  from snapshot_restore_roundtrip[OF h1 h2 h3] h1 h2 h3 d e show ?thesis by simp
qed

section \<open>The two entry points\<close>

text \<open>
  C3. When the selected outfit index \<open>i\<close> is in bounds, the activate-selected operator and
  the quick-activate operator with target \<open>i\<close> return the same outcome: the same result
  \<open>FINISHED\<close> and the same final scene, hence the same exclusion flags, shape-key weights,
  snapshots and active index.
\<close>

theorem activate_refines_quick_activate:
  assumes "0 \<le> i" "i < int (length (amarillo_outfits s))" "amarillo_active_outfit_index s = i"
  shows "activate_execute s = quick_activate_execute s i \<and>
         (\<exists>s'. activate_execute s = Inr (FINISHED, s'))"
  using quick_activate_selected[OF assms] assms
  by (simp add: activate_execute_eq subscript_in_range)

theorem activate_refines_quick_activate_witness:
  "(0::int) \<le> 0 \<and> 0 < int (length (amarillo_outfits demo_scene)) \<and>
   amarillo_active_outfit_index demo_scene = 0 \<and>
   activate_execute demo_scene = quick_activate_execute demo_scene 0"
proof -
  have h: "(0::int) \<le> 0" "0 < int (length (amarillo_outfits demo_scene))"
    "amarillo_active_outfit_index demo_scene = 0"
    by (simp_all add: demo_scene_def)
  from activate_refines_quick_activate[OF h] h show ?thesis by simp
qed

section \<open>Removing an outfit\<close>

lemma remove_outfit_first:
  assumes "amarillo_outfits s = outfit # rest" "amarillo_active_outfit_index s = 0"
  shows "remove_outfit_execute s =
           Inr (FINISHED, s\<lparr>amarillo_outfits := rest, amarillo_active_outfit_index := 0\<rparr>)"
  using assms by (simp add: remove_outfit_execute_def subscript_def collection_remove_def)

lemma remove_outfit_later:
  assumes "1 \<le> i" "i < int (length (amarillo_outfits s))" "amarillo_active_outfit_index s = i"
  shows "remove_outfit_execute s =
           Inr (FINISHED,
                s\<lparr>amarillo_outfits :=
                     collection_remove
                       ((amarillo_outfits s)
                          [nat i := (amarillo_outfits s ! nat i)\<lparr>o_shape_keys := []\<rparr>]) (i - 1),
                  amarillo_active_outfit_index := i - 1\<rparr>)"
  using assms by (simp add: remove_outfit_execute_def subscript_def Let_def)

text \<open>
  C1. The remove-outfit operator is claimed to clear the overrides of the selected outfit
  and then remove that same outfit, leaving the others intact. The source lowers the
  selected index before it calls \<open>remove\<close>, so for a selected index of 1 or more it removes
  the outfit before the selected one and keeps the selected one with its overrides
  cleared. With \<open>Casual\<close> and \<open>Formal\<close> in the list and \<open>Formal\<close> selected, \<open>Casual\<close> is
  removed and \<open>Formal\<close> stays without its override.
\<close>

theorem remove_outfit_removes_predecessor:
  "remove_outfit_execute (demo_scene\<lparr>amarillo_active_outfit_index := 1\<rparr>) =
     Inr (FINISHED,
          demo_scene\<lparr>amarillo_outfits := [demo_formal_outfit\<lparr>o_shape_keys := []\<rparr>],
                      amarillo_active_outfit_index := 0\<rparr>)"
  by (simp add: remove_outfit_execute_def demo_scene_def subscript_def collection_remove_def)

section \<open>Activation requests out of bounds\<close>

lemma quick_activate_past_end:
  "int (length (amarillo_outfits s)) \<le> outfit_index \<Longrightarrow>
   quick_activate_execute s outfit_index = Inr (CANCELLED, s)"
  by (simp add: quick_activate_execute_def)

text \<open>
  C4. An activation request out of bounds is claimed to change nothing, to report a
  cancellation and to raise nothing. That holds for quick-activate with a target at or past
  the end (\<open>quick_activate_past_end\<close>). It fails elsewhere: the activate-selected operator
  has no bounds check and raises \<open>IndexError\<close> on an empty outfit list or a selected index
  past the end; quick-activate checks only the upper bound, so target \<open>-1\<close> activates the
  last outfit (collection 1 and everything below it end excluded, collection 5 visible)
  and stores \<open>-1\<close> as the active index, and a target below \<open>-len\<close> raises.
\<close>

theorem activation_out_of_bounds_not_cancelled:
  "activate_execute (demo_scene\<lparr>amarillo_outfits := []\<rparr>) = Inl IndexError \<and>
   activate_execute (demo_scene\<lparr>amarillo_active_outfit_index := 2\<rparr>) = Inl IndexError \<and>
   quick_activate_execute demo_scene (- 3) = Inl IndexError \<and>
   map_sum id (amarillo_active_outfit_index \<circ> snd) (quick_activate_execute demo_scene (- 1)) =
     Inr (- 1) \<and>
   map_sum id (view_layer \<circ> snd) (quick_activate_execute demo_scene (- 1)) =
     Inr (LayerCollection 0 False False
            [LayerCollection 1 True False
               [LayerCollection 2 True True [],
                LayerCollection 3 True False [LayerCollection 4 True False []]],
             LayerCollection 5 False False []])"
  by (simp add: activate_execute_def quick_activate_execute_def subscript_def Let_def
      demo_scene_def demo_casual_def demo_formal_outfit_def demo_body_def demo_formal_def
      demo_layer_def store_nested_states_def reset_outfit_shape_keys_def disable_all_def
      disable_step_def enable_target_def restore_nested_states_def apply_shape_keys_def)

section \<open>Adding a shape-key override\<close>

lemma active_shape_key_has_keys:
  "active_shape_key ob = Some active_key \<Longrightarrow> \<exists>kbs. ob_shape_keys ob = Some kbs"
  by (auto simp: active_shape_key_def split: option.splits)

lemma add_shape_key_basis_rejected:
  assumes "subscript (amarillo_outfits s) (amarillo_active_outfit_index s) = Some k"
    and "subscript (amarillo_managed_models s) (amarillo_active_model_index s) = Some j"
    and "0 \<le> amarillo_active_model_index s"
    and "mm_object (amarillo_managed_models s ! j) = Some ob"
    and "active_shape_key (objects s ob) = Some active_key"
    and "kb_name active_key = ''Basis''"
  shows "add_shape_key_execute s = Inr (CANCELLED, s)"
  using assms by (simp add: add_shape_key_execute_def split: option.splits)

lemma add_shape_key_no_shape_keys:
  assumes "subscript (amarillo_outfits s) (amarillo_active_outfit_index s) = Some k"
    and "subscript (amarillo_managed_models s) (amarillo_active_model_index s) = Some j"
    and "mm_object (amarillo_managed_models s ! j) = None \<or>
         (\<exists>ob. mm_object (amarillo_managed_models s ! j) = Some ob \<and>
               ob_shape_keys (objects s ob) = None)"
  shows "add_shape_key_execute s = Inr (CANCELLED, s)"
  using assms by (auto simp: add_shape_key_execute_def split: option.splits)

lemma add_shape_key_negative_model_index:
  assumes "subscript (amarillo_outfits s) (amarillo_active_outfit_index s) = Some k"
    and "amarillo_active_model_index s < 0"
  shows "add_shape_key_execute s = Inr (CANCELLED, s)"
  using assms by (simp add: add_shape_key_execute_def)

lemma add_shape_key_captures_weight:
  assumes "subscript (amarillo_outfits s) (amarillo_active_outfit_index s) = Some k"
    and "subscript (amarillo_managed_models s) (amarillo_active_model_index s) = Some j"
    and "0 \<le> amarillo_active_model_index s"
    and "mm_object (amarillo_managed_models s ! j) = Some ob"
    and "active_shape_key (objects s ob) = Some active_key"
    and "kb_name active_key \<noteq> ''Basis''"
  shows "add_shape_key_execute s =
           Inr (FINISHED,
                s\<lparr>amarillo_outfits := (amarillo_outfits s)
                     [k := (amarillo_outfits s ! k)
                        \<lparr>o_shape_keys := o_shape_keys (amarillo_outfits s ! k) @
                           [\<lparr>sk_name = kb_name active_key,
                             sk_value = clamp_value 0 1 (kb_value active_key),
                             sk_model = Some ob\<rparr>]\<rparr>]\<rparr>)"
  using assms active_shape_key_has_keys[of "objects s ob" active_key]
  by (auto simp: add_shape_key_execute_def Let_def)

text \<open>
  C9. Adding an override is claimed to be rejected with a cancellation and without
  mutation when the active key is the basis key, when no model is selected or when the
  model has no shape keys, and to capture the key's current weight on success. When the
  selected registry entry exists, the source cancels for a model that is unset or has no
  shape keys and for an active key named \<open>Basis\<close> (the basis key is recognised by that
  name only), and otherwise appends an override holding the key's weight clamped to the
  range from 0 to 1 of the override's value (the four lemmas above). It tests only that
  the selected model index is not negative before it subscripts the registry, so with an
  empty registry, where no model is selected and the index is 0, it raises \<open>IndexError\<close>
  instead of cancelling.
\<close>

theorem add_shape_key_empty_registry:
  "add_shape_key_execute (demo_scene\<lparr>amarillo_managed_models := []\<rparr>) = Inl IndexError"
  by (simp add: add_shape_key_execute_def demo_scene_def subscript_def)

section \<open>Removing a managed model\<close>

lemma remove_override_fields [simp]:
  "o_name (remove_override i outfit) = o_name outfit"
  "o_collection (remove_override i outfit) = o_collection outfit"
  "o_nested_states (remove_override i outfit) = o_nested_states outfit"
  "o_shape_keys (remove_override i outfit) = collection_remove (o_shape_keys outfit) (int i)"
  by (simp_all add: remove_override_def Let_def)

lemma fold_remove_override_fields:
  "o_name (fold remove_override is outfit) = o_name outfit"
  "o_collection (fold remove_override is outfit) = o_collection outfit"
  "o_nested_states (fold remove_override is outfit) = o_nested_states outfit"
  "o_shape_keys (fold remove_override is outfit) =
     fold (\<lambda>i ys. collection_remove ys (int i)) is (o_shape_keys outfit)"
  by (induction "is" arbitrary: outfit) simp_all

lemma collection_remove_end: "collection_remove (xs @ x # zs) (int (length xs)) = xs @ zs"
  by (simp add: collection_remove_def)

lemma matching_indices_snoc:
  "[i \<leftarrow> [0 ..< Suc (length xs)]. p ((xs @ [x]) ! i)] =
     [i \<leftarrow> [0 ..< length xs]. p (xs ! i)] @ (if p x then [length xs] else [])"
proof -
  have "[i \<leftarrow> [0 ..< length xs]. p ((xs @ [x]) ! i)] = [i \<leftarrow> [0 ..< length xs]. p (xs ! i)]"
    by (rule filter_cong) (simp_all add: nth_append)
  then show ?thesis by simp
qed

lemma remove_matching_indices:
  "fold (\<lambda>i ys. collection_remove ys (int i)) (rev [i \<leftarrow> [0 ..< length xs]. p (xs ! i)]) (xs @ zs) =
     filter (\<lambda>x. \<not> p x) xs @ zs"
proof (induction xs arbitrary: zs rule: rev_induct)
  case Nil
  show ?case by simp
next
  case (snoc x xs)
  show ?case
  proof (cases "p x")
    case True
    then show ?thesis
      using snoc[of zs] by (simp add: matching_indices_snoc collection_remove_end del: upt_Suc)
  next
    case False
    then show ?thesis
      using snoc[of "x # zs"] by (simp add: matching_indices_snoc del: upt_Suc)
  qed
qed

lemma remove_model_overrides_keys:
  "o_shape_keys (remove_model_overrides ob outfit) =
     filter (\<lambda>sk. sk_model sk \<noteq> ob) (o_shape_keys outfit)"
  using remove_matching_indices[of "\<lambda>sk. sk_model sk = ob" "o_shape_keys outfit" "[]"]
  by (simp add: remove_model_overrides_def to_remove_def fold_remove_override_fields)

lemma remove_override_in_bounds:
  "index_in_bounds (o_active_shape_key_index outfit) (o_shape_keys outfit) \<Longrightarrow>
   index_in_bounds (o_active_shape_key_index (remove_override i outfit))
     (o_shape_keys (remove_override i outfit))"
  by (auto simp: index_in_bounds_def remove_override_def Let_def collection_remove_def)

lemma remove_override_clamps:
  "0 \<le> o_active_shape_key_index outfit \<Longrightarrow> i < length (o_shape_keys outfit) \<Longrightarrow>
   index_in_bounds (o_active_shape_key_index (remove_override i outfit))
     (o_shape_keys (remove_override i outfit))"
  by (auto simp: index_in_bounds_def remove_override_def Let_def collection_remove_def)

lemma fold_remove_override_in_bounds:
  "index_in_bounds (o_active_shape_key_index outfit) (o_shape_keys outfit) \<Longrightarrow>
   index_in_bounds (o_active_shape_key_index (fold remove_override is outfit))
     (o_shape_keys (fold remove_override is outfit))"
  by (induction "is" arbitrary: outfit) (simp_all add: remove_override_in_bounds del: remove_override_fields)

lemma to_remove_empty: "(\<forall>sk \<in> set (o_shape_keys outfit). sk_model sk \<noteq> ob) \<Longrightarrow> to_remove ob outfit = []"
  by (auto simp: to_remove_def filter_empty_conv)

lemma to_remove_last:
  assumes "sk \<in> set (o_shape_keys outfit)" "sk_model sk = ob"
  shows "\<exists>i is. rev (to_remove ob outfit) = i # is \<and> i < length (o_shape_keys outfit)"
proof -
  from assms obtain j where j: "j < length (o_shape_keys outfit)" "o_shape_keys outfit ! j = sk"
    by (auto simp: in_set_conv_nth)
  with assms have "j \<in> set (to_remove ob outfit)" by (simp add: to_remove_def)
  then have ne: "rev (to_remove ob outfit) \<noteq> []" by auto
  then obtain i "is" where r: "rev (to_remove ob outfit) = i # is" by (cases "rev (to_remove ob outfit)") auto
  then have "i \<in> set (to_remove ob outfit)" by (metis list.set_intros(1) set_rev)
  then have "i < length (o_shape_keys outfit)" by (simp add: to_remove_def)
  with r show ?thesis by blast
qed

lemma remove_model_overrides_index:
  assumes "0 \<le> o_active_shape_key_index outfit"
    and "index_in_bounds (o_active_shape_key_index outfit) (o_shape_keys outfit) \<or>
         (\<exists>sk \<in> set (o_shape_keys outfit). sk_model sk = ob)"
  shows "index_in_bounds (o_active_shape_key_index (remove_model_overrides ob outfit))
           (o_shape_keys (remove_model_overrides ob outfit))"
proof (cases "index_in_bounds (o_active_shape_key_index outfit) (o_shape_keys outfit)")
  case True
  then show ?thesis by (simp add: remove_model_overrides_def fold_remove_override_in_bounds)
next
  case False
  with assms obtain sk where "sk \<in> set (o_shape_keys outfit)" "sk_model sk = ob" by blast
  from to_remove_last[OF this] obtain i "is" where
    r: "rev (to_remove ob outfit) = i # is" and i: "i < length (o_shape_keys outfit)" by blast
  have "index_in_bounds (o_active_shape_key_index (remove_override i outfit))
          (o_shape_keys (remove_override i outfit))"
    using assms(1) i by (rule remove_override_clamps)
  from fold_remove_override_in_bounds[OF this, of "is"] r show ?thesis
    by (simp add: remove_model_overrides_def)
qed

lemma remove_model_overrides_untouched:
  "(\<forall>sk \<in> set (o_shape_keys outfit). sk_model sk \<noteq> ob) \<Longrightarrow> remove_model_overrides ob outfit = outfit"
  by (simp add: remove_model_overrides_def to_remove_empty)


text \<open>
  C2 as stated fails: the active override index is lowered only inside the removal loop,
  so an outfit from which nothing is removed keeps an index that is out of bounds. Such an
  outfit arises from the add-on's own operators: removing the outfit after \<open>Casual\<close> in
  \<open>stale_start\<close> leaves \<open>Formal\<close> with no overrides and active override index 1, and
  removing the managed model then leaves that index at 1 on an empty list.
\<close>

theorem remove_managed_model_index_counterexample:
  "remove_outfit_execute stale_start = Inr (FINISHED, stale_scene) \<and>
   amarillo_active_model_index stale_scene = 0 \<and>
   length (amarillo_managed_models stale_scene) = 1 \<and>
   map_sum id (amarillo_outfits \<circ> snd) (remove_managed_model_execute stale_scene) =
     Inr [demo_formal_outfit\<lparr>o_shape_keys := [], o_active_shape_key_index := 1\<rparr>] \<and>
   \<not> index_in_bounds 1 ([] :: shape_key_entry list)"
  by (simp add: remove_outfit_execute_def remove_managed_model_execute_def stale_start_def
      stale_scene_def demo_scene_def subscript_def collection_remove_def
      remove_model_overrides_def to_remove_def demo_formal_outfit_def index_in_bounds_def)

text \<open>
  C2, amended. For every valid unregister index the operator finishes and, in every
  outfit, removes exactly the overrides whose model is the removed object, keeping the
  others in their order. Afterwards the active override index of an outfit lies in
  \<open>[0, len - 1]\<close> (or is 0 when the list is empty) whenever it was not negative and either
  it was in bounds before or the outfit lost an override. An outfit that holds no override
  of the removed object is left as it was.
\<close>

theorem remove_managed_model_cascade:
  assumes "0 \<le> amarillo_active_model_index s"
    and "amarillo_active_model_index s < int (length (amarillo_managed_models s))"
    and "ob = mm_object (amarillo_managed_models s ! nat (amarillo_active_model_index s))"
  shows "\<exists>s'. remove_managed_model_execute s = Inr (FINISHED, s') \<and>
           length (amarillo_outfits s') = length (amarillo_outfits s) \<and>
           (\<forall>i < length (amarillo_outfits s).
              o_shape_keys (amarillo_outfits s' ! i) =
                filter (\<lambda>sk. sk_model sk \<noteq> ob) (o_shape_keys (amarillo_outfits s ! i)) \<and>
              (0 \<le> o_active_shape_key_index (amarillo_outfits s ! i) \<and>
               (index_in_bounds (o_active_shape_key_index (amarillo_outfits s ! i))
                  (o_shape_keys (amarillo_outfits s ! i)) \<or>
                (\<exists>sk \<in> set (o_shape_keys (amarillo_outfits s ! i)). sk_model sk = ob)) \<longrightarrow>
               index_in_bounds (o_active_shape_key_index (amarillo_outfits s' ! i))
                 (o_shape_keys (amarillo_outfits s' ! i))) \<and>
              ((\<forall>sk \<in> set (o_shape_keys (amarillo_outfits s ! i)). sk_model sk \<noteq> ob) \<longrightarrow>
               amarillo_outfits s' ! i = amarillo_outfits s ! i))"
proof -
  let ?s' = "s\<lparr>amarillo_outfits := map (remove_model_overrides ob) (amarillo_outfits s),
               amarillo_managed_models :=
                 collection_remove (amarillo_managed_models s) (amarillo_active_model_index s),
               amarillo_active_model_index := max 0 (amarillo_active_model_index s - 1)\<rparr>"
  have run: "remove_managed_model_execute s = Inr (FINISHED, ?s')"
    using assms by (simp add: remove_managed_model_execute_def Let_def)
  have each: "o_shape_keys (amarillo_outfits ?s' ! i) =
                filter (\<lambda>sk. sk_model sk \<noteq> ob) (o_shape_keys (amarillo_outfits s ! i)) \<and>
              (0 \<le> o_active_shape_key_index (amarillo_outfits s ! i) \<and>
               (index_in_bounds (o_active_shape_key_index (amarillo_outfits s ! i))
                  (o_shape_keys (amarillo_outfits s ! i)) \<or>
                (\<exists>sk \<in> set (o_shape_keys (amarillo_outfits s ! i)). sk_model sk = ob)) \<longrightarrow>
               index_in_bounds (o_active_shape_key_index (amarillo_outfits ?s' ! i))
                 (o_shape_keys (amarillo_outfits ?s' ! i))) \<and>
              ((\<forall>sk \<in> set (o_shape_keys (amarillo_outfits s ! i)). sk_model sk \<noteq> ob) \<longrightarrow>
               amarillo_outfits ?s' ! i = amarillo_outfits s ! i)"
    if "i < length (amarillo_outfits s)" for i
  proof -
    have nth: "amarillo_outfits ?s' ! i = remove_model_overrides ob (amarillo_outfits s ! i)"
      using that by simp
    show ?thesis
      unfolding nth
      using remove_model_overrides_keys[of ob "amarillo_outfits s ! i"]
        remove_model_overrides_index[of "amarillo_outfits s ! i" ob]
        remove_model_overrides_untouched[of "amarillo_outfits s ! i" ob]
      by blast
  qed
  have len: "length (amarillo_outfits ?s') = length (amarillo_outfits s)" by simp
  show ?thesis
  proof (rule exI[of _ ?s'], intro conjI)
    show "remove_managed_model_execute s = Inr (FINISHED, ?s')" by (rule run)
    show "length (amarillo_outfits ?s') = length (amarillo_outfits s)" by (rule len)
  qed (use each in blast)
qed

theorem remove_managed_model_cascade_witness:
  "0 \<le> amarillo_active_model_index cascade_scene \<and>
   amarillo_active_model_index cascade_scene < int (length (amarillo_managed_models cascade_scene)) \<and>
   (\<exists>s'. remove_managed_model_execute cascade_scene = Inr (FINISHED, s') \<and>
      o_shape_keys (amarillo_outfits s' ! 0) =
        [\<lparr>sk_name = ''Blink'', sk_value = 1, sk_model = Some 8\<rparr>] \<and>
      index_in_bounds (o_active_shape_key_index (amarillo_outfits s' ! 0))
        (o_shape_keys (amarillo_outfits s' ! 0)))"
proof -
  have h: "0 \<le> amarillo_active_model_index cascade_scene"
    "amarillo_active_model_index cascade_scene < int (length (amarillo_managed_models cascade_scene))"
    by (simp_all add: cascade_scene_def demo_scene_def)
  have m: "mm_object (amarillo_managed_models cascade_scene !
             nat (amarillo_active_model_index cascade_scene)) = Some 7"
    by (simp add: cascade_scene_def demo_scene_def)
  have o: "0 < length (amarillo_outfits cascade_scene)"
    "o_shape_keys (amarillo_outfits cascade_scene ! 0) =
       [\<lparr>sk_name = ''Smile'', sk_value = 8 / 10, sk_model = Some 7\<rparr>,
        \<lparr>sk_name = ''Blink'', sk_value = 1, sk_model = Some 8\<rparr>,
        \<lparr>sk_name = ''Frown'', sk_value = 1 / 2, sk_model = Some 7\<rparr>]"
    "o_active_shape_key_index (amarillo_outfits cascade_scene ! 0) = 2"
    by (simp_all add: cascade_scene_def demo_scene_def demo_casual_def)
  from remove_managed_model_cascade[OF h m[symmetric]] obtain s' where
    s': "remove_managed_model_execute cascade_scene = Inr (FINISHED, s')"
    and all: "\<forall>i < length (amarillo_outfits cascade_scene).
      o_shape_keys (amarillo_outfits s' ! i) =
        filter (\<lambda>sk. sk_model sk \<noteq> Some 7) (o_shape_keys (amarillo_outfits cascade_scene ! i)) \<and>
      (0 \<le> o_active_shape_key_index (amarillo_outfits cascade_scene ! i) \<and>
       (index_in_bounds (o_active_shape_key_index (amarillo_outfits cascade_scene ! i))
          (o_shape_keys (amarillo_outfits cascade_scene ! i)) \<or>
        (\<exists>sk \<in> set (o_shape_keys (amarillo_outfits cascade_scene ! i)). sk_model sk = Some 7)) \<longrightarrow>
       index_in_bounds (o_active_shape_key_index (amarillo_outfits s' ! i))
         (o_shape_keys (amarillo_outfits s' ! i))) \<and>
      ((\<forall>sk \<in> set (o_shape_keys (amarillo_outfits cascade_scene ! i)). sk_model sk \<noteq> Some 7) \<longrightarrow>
       amarillo_outfits s' ! i = amarillo_outfits cascade_scene ! i)"
    by blast
  note first = all[rule_format, OF o(1)]
  have keys: "o_shape_keys (amarillo_outfits s' ! 0) =
                [\<lparr>sk_name = ''Blink'', sk_value = 1, sk_model = Some 8\<rparr>]"
    using first by (simp add: o)
  have pre: "0 \<le> o_active_shape_key_index (amarillo_outfits cascade_scene ! 0) \<and>
             (index_in_bounds (o_active_shape_key_index (amarillo_outfits cascade_scene ! 0))
                (o_shape_keys (amarillo_outfits cascade_scene ! 0)) \<or>
              (\<exists>sk \<in> set (o_shape_keys (amarillo_outfits cascade_scene ! 0)). sk_model sk = Some 7))"
    by (simp add: o index_in_bounds_def)
  from first pre have "index_in_bounds (o_active_shape_key_index (amarillo_outfits s' ! 0))
          (o_shape_keys (amarillo_outfits s' ! 0))"
    by blast
  with s' h keys show ?thesis by blast
qed

section \<open>What an activation leaves alone\<close>

lemma activation_frame_refl: "activation_frame p s s"
  by (simp add: activation_frame_def)

lemma quick_activate_finishes:
  assumes "0 \<le> outfit_index" "outfit_index < int (length (amarillo_outfits s))"
    and "- int (length (amarillo_outfits s)) \<le> amarillo_active_outfit_index s"
  shows "\<exists>s'. quick_activate_execute s outfit_index = Inr (FINISHED, s')"
  using assms by (auto simp: quick_activate_execute_def Let_def subscript_def)

text \<open>
  C10. An activation never mutates the outfit sequence: the outfits, their order, names,
  bound collections, override lists and active override indices stay as they were, and so
  do the model registry and its index. The only state written is exclusion flags,
  shape-key weights, the snapshot of the previous outfit and (for quick-activate) the
  active outfit index. An in-bounds quick-activate request finishes whenever the previous
  active index can be subscripted.
\<close>

theorem activation_frame_holds:
  "(quick_activate_execute s outfit_index = Inr (r, s') \<longrightarrow>
      activation_frame (previous_outfit s) s s') \<and>
   (activate_execute s = Inr (r, s') \<longrightarrow>
      activation_frame (subscript (amarillo_outfits s) (amarillo_active_outfit_index s)) s s' \<and>
      amarillo_active_outfit_index s' = amarillo_active_outfit_index s) \<and>
   (0 \<le> outfit_index \<and> outfit_index < int (length (amarillo_outfits s)) \<and>
    - int (length (amarillo_outfits s)) \<le> amarillo_active_outfit_index s \<longrightarrow>
      (\<exists>s''. quick_activate_execute s outfit_index = Inr (FINISHED, s'')))"
proof (intro conjI impI)
  assume "quick_activate_execute s outfit_index = Inr (r, s')"
  then show "activation_frame (previous_outfit s) s s'"
    by (auto simp: quick_activate_execute_def Let_def previous_outfit_def
        transition_frame transition_frame_fresh activation_frame_index activation_frame_refl
        split: if_splits option.splits sum.splits)
next
  assume a: "activate_execute s = Inr (r, s')"
  then show "activation_frame (subscript (amarillo_outfits s) (amarillo_active_outfit_index s)) s s'"
    by (auto simp: activate_execute_def Let_def transition_frame split: option.splits)
  from a show "amarillo_active_outfit_index s' = amarillo_active_outfit_index s"
    by (auto simp: activate_execute_def Let_def split: option.splits)
next
  assume "0 \<le> outfit_index \<and> outfit_index < int (length (amarillo_outfits s)) \<and>
    - int (length (amarillo_outfits s)) \<le> amarillo_active_outfit_index s"
  then show "\<exists>s''. quick_activate_execute s outfit_index = Inr (FINISHED, s'')"
    by (simp add: quick_activate_finishes)
qed

theorem activation_frame_holds_witness:
  "(0::int) \<le> 1 \<and> 1 < int (length (amarillo_outfits demo_scene)) \<and>
   - int (length (amarillo_outfits demo_scene)) \<le> amarillo_active_outfit_index demo_scene \<and>
   (\<exists>s'. quick_activate_execute demo_scene 1 = Inr (FINISHED, s') \<and>
         activation_frame (previous_outfit demo_scene) demo_scene s') \<and>
   (\<exists>s'. activate_execute demo_scene = Inr (FINISHED, s') \<and>
         activation_frame (Some 0) demo_scene s')"
proof -
  have h: "(0::int) \<le> 1 \<and> 1 < int (length (amarillo_outfits demo_scene)) \<and>
   - int (length (amarillo_outfits demo_scene)) \<le> amarillo_active_outfit_index demo_scene"
    by (simp add: demo_scene_def)
  have sub: "subscript (amarillo_outfits demo_scene) (amarillo_active_outfit_index demo_scene) = Some 0"
    by (simp add: demo_scene_def subscript_def)
  from activation_frame_holds[of demo_scene 1] h obtain s1 where
    s1: "quick_activate_execute demo_scene 1 = Inr (FINISHED, s1)" by blast
  from activation_frame_holds[of demo_scene 1 FINISHED s1] s1
  have f1: "activation_frame (previous_outfit demo_scene) demo_scene s1" by blast
  from activate_execute_eq[OF sub] obtain s2 where
    s2: "activate_execute demo_scene = Inr (FINISHED, s2)" by blast
  from activation_frame_holds[of demo_scene 1 FINISHED s2] s2 sub
  have f2: "activation_frame (Some 0) demo_scene s2" by simp
  from h s1 f1 s2 f2 show ?thesis by blast
qed

section \<open>The flag pattern of an activation\<close>

lemma transition_covers:
  "covers (view_layer (transition s previous k)) x d = covers (view_layer s) x d"
  by (rule same_shape(5)) (rule transition_shape)

lemma transition_enable_writes:
  "enable_writes (view_layer (transition s previous k)) outfit = enable_writes (view_layer s) outfit"
  by (cases "bound_id outfit") (simp_all add: enable_writes_def transition_resolvable)

lemma transition_hides:
  assumes "outfit \<in> set (amarillo_outfits s)" "bound_id outfit = Some d"
    and "exclude_of (view_layer s) d \<noteq> None"
    and "\<And>x. x \<in> fst ` set (enable_writes (view_layer s) (amarillo_outfits (transition s previous k) ! k))
           \<Longrightarrow> \<not> covers (view_layer s) x d"
  shows "exclude_of (view_layer (transition s previous k)) d = Some True"
proof -
  let ?t = "view_layer s"
  let ?Wd = "disable_writes (amarillo_outfits s)"
  let ?We = "enable_writes ?t (amarillo_outfits (transition s previous k) ! k)"
  let ?t' = "fold assign_flag ?Wd ?t"
  have v: "view_layer (transition s previous k) = fold assign_flag ?We ?t'"
    by (simp only: transition_view_layer[of s previous k] transition_writes_def
        transition_fields fold_append comp_def)
  from assms(1,2) have "d \<in> fst ` set ?Wd"
    by (force simp: disable_writes_def set_map_filter)
  from writes_direct_true[OF assms(3) this disable_writes_true]
  have hidden: "exclude_of ?t' d = Some True" .
  have "\<not> covers ?t' x d" if "x \<in> fst ` set ?We" for x
    using assms(4)[OF that] by (simp add: writes_shape)
  from writes_untouched[of ?We ?t' d, OF this] hidden show ?thesis by (simp only: v)
qed

lemma transition_holds:
  assumes "enable_writes (view_layer s) (amarillo_outfits (transition s previous k) ! k) =
             W1 @ (d, b) # W2"
    and "exclude_of (view_layer s) d \<noteq> None"
    and "\<And>x. x \<in> fst ` set W2 \<Longrightarrow> \<not> covers (view_layer s) x d"
  shows "exclude_of (view_layer (transition s previous k)) d = Some b"
proof -
  let ?t = "view_layer s"
  let ?Wd = "disable_writes (amarillo_outfits s)"
  have "transition_writes (amarillo_outfits (transition s previous k)) ?t k =
          (?Wd @ W1) @ (d, b) # W2"
    by (simp add: transition_writes_def assms(1))
  then have "view_layer (transition s previous k) = fold assign_flag ((?Wd @ W1) @ (d, b) # W2) ?t"
    by (simp only: transition_view_layer[of s previous k])
  with writes_last_direct[OF assms(2,3), of W2 "?Wd @ W1" b] show ?thesis by simp
qed

text \<open>
  C5 as stated fails. An assignment to the flag of a collection sets the flags below it
  too, and the enable step and the restore run after the disable loop. In \<open>nested_scene\<close>
  the outfit \<open>Shoes\<close> is bound to collection 3, nested in collection 1 of \<open>Casual\<close>:
  quick-activating \<open>Casual\<close> leaves collection 3 visible. In \<open>twin_scene\<close> the outfit
  \<open>Twin\<close> shares collection 1 with \<open>Casual\<close>, which ends visible. A target whose
  snapshot records its own collection as excluded ends excluded (\<open>rebound_scene\<close>), and a
  target without a bound collection is not restored at all, so its entry for collection
  2 does not hold (\<open>unbound_scene\<close>).
\<close>

theorem activation_flags_counterexample:
  "bound_id (amarillo_outfits nested_scene ! 2) = Some 3 \<and>
   map_sum id (view_layer \<circ> snd) (quick_activate_execute nested_scene 0) =
     Inr (LayerCollection 0 False False
            [LayerCollection 1 False False
               [LayerCollection 2 True True [],
                LayerCollection 3 False False [LayerCollection 4 True True []]],
             LayerCollection 5 True False []]) \<and>
   bound_id (amarillo_outfits twin_scene ! 1) = Some 1 \<and>
   exclude_after (quick_activate_execute twin_scene 0) 1 = Some False \<and>
   bound_id (amarillo_outfits rebound_scene ! 0) = Some 2 \<and>
   exclude_after (quick_activate_execute rebound_scene 0) 2 = Some True \<and>
   map_sum id (map o_nested_states \<circ> amarillo_outfits \<circ> snd)
       (quick_activate_execute unbound_scene 0) =
     Inr [[\<lparr>ns_collection = Some (Collection 2 []), ns_was_excluded = False\<rparr>], []] \<and>
   exclude_after (quick_activate_execute unbound_scene 0) 2 = Some True"
  by (simp add: run_defs scene_defs nested_scene_def twin_scene_def rebound_scene_def
      unbound_scene_def bound_id_def exclude_after_def exclude_of_def)

text \<open>
  C5, amended. After an in-bounds quick-activate of outfit \<open>T\<close> has finished, with the
  writes that follow the disable loop being the assignment to the collection bound to \<open>T\<close>
  and the entries of the snapshot of \<open>T\<close> (none of them when \<open>T\<close> is unbound or its
  collection has no node): the bound collection of every outfit, when it resolves, is
  excluded unless one of those writes is to it or to a collection above it; the bound
  collection of \<open>T\<close>, when it resolves, is not excluded unless an entry of the snapshot is
  for it or for a collection above it; and when the bound collection of \<open>T\<close> resolves, a
  resolvable collection has the flag recorded by an entry of the snapshot unless a later
  entry is for it or for a collection above it.
\<close>

theorem activation_flags:
  assumes "0 \<le> outfit_index" "outfit_index < int (length (amarillo_outfits s))"
    and "quick_activate_execute s outfit_index = Inr (r, s')"
    and "target = amarillo_outfits s' ! nat outfit_index"
  shows "r = FINISHED \<and>
         (\<forall>outfit \<in> set (amarillo_outfits s'). \<forall>d.
            bound_id outfit = Some d \<and> exclude_of (view_layer s') d \<noteq> None \<and>
            (\<forall>x \<in> fst ` set (enable_writes (view_layer s') target). \<not> covers (view_layer s') x d) \<longrightarrow>
            exclude_of (view_layer s') d = Some True) \<and>
         (\<forall>c. bound_id target = Some c \<and> exclude_of (view_layer s') c \<noteq> None \<and>
              (\<forall>x \<in> fst ` set (snapshot_writes (o_nested_states target)).
                 \<not> covers (view_layer s') x c) \<longrightarrow>
              exclude_of (view_layer s') c = Some False) \<and>
         (\<forall>c W1 d b W2. bound_id target = Some c \<and> exclude_of (view_layer s') c \<noteq> None \<and>
              snapshot_writes (o_nested_states target) = W1 @ (d, b) # W2 \<and>
              exclude_of (view_layer s') d \<noteq> None \<and>
              (\<forall>x \<in> fst ` set W2. \<not> covers (view_layer s') x d) \<longrightarrow>
              exclude_of (view_layer s') d = Some b)"
proof -
  let ?k = "nat outfit_index"
  let ?p = "previous_outfit s"
  let ?s'' = "transition s ?p ?k"
  from quick_activate_result[OF assms(1-3)]
  have r: "r = FINISHED" and s': "s' = ?s''\<lparr>amarillo_active_outfit_index := outfit_index\<rparr>"
    by simp_all
  have v: "view_layer s' = view_layer ?s''" and o: "amarillo_outfits s' = amarillo_outfits ?s''"
    by (simp_all add: s')
  have tgt: "target = amarillo_outfits ?s'' ! ?k" by (simp add: assms(4) o)
  have res: "exclude_of (view_layer s') d \<noteq> None \<Longrightarrow> exclude_of (view_layer s) d \<noteq> None" for d
    unfolding v by (simp add: transition_resolvable)
  have cov: "covers (view_layer s') x d = covers (view_layer s) x d" for x d
    unfolding v by (rule transition_covers)
  have en: "enable_writes (view_layer s') target =
            enable_writes (view_layer s) (amarillo_outfits ?s'' ! ?k)"
    unfolding v tgt by (rule transition_enable_writes)
  have hides: "exclude_of (view_layer s') d = Some True"
    if "outfit \<in> set (amarillo_outfits s')" "bound_id outfit = Some d"
      "exclude_of (view_layer s') d \<noteq> None"
      "\<forall>x \<in> fst ` set (enable_writes (view_layer s') target). \<not> covers (view_layer s') x d"
    for outfit d
  proof -
    from that(1) obtain i where i: "i < length (amarillo_outfits s')" "outfit = amarillo_outfits s' ! i"
      by (auto simp: in_set_conv_nth)
    then have bd: "bound_id (amarillo_outfits s ! i) = Some d" and "i < length (amarillo_outfits s)"
      using that(2) by (simp_all add: o)
    then have mem: "amarillo_outfits s ! i \<in> set (amarillo_outfits s)" by simp
    have "\<not> covers (view_layer s) x d"
      if "x \<in> fst ` set (enable_writes (view_layer s) (amarillo_outfits ?s'' ! ?k))" for x
      using that \<open>\<forall>x \<in> fst ` set (enable_writes (view_layer s') target). \<not> covers (view_layer s') x d\<close>
      by (simp only: en cov) blast
    from transition_hides[OF mem bd res[OF that(3)] this] show ?thesis by (simp only: v)
  qed
  have enables: "exclude_of (view_layer s') c = Some False"
    if "bound_id target = Some c" "exclude_of (view_layer s') c \<noteq> None"
      "\<forall>x \<in> fst ` set (snapshot_writes (o_nested_states target)). \<not> covers (view_layer s') x c"
    for c
  proof -
    have "enable_writes (view_layer s) (amarillo_outfits ?s'' ! ?k) =
            [] @ (c, False) # snapshot_writes (o_nested_states target)"
      using that(1) res[OF that(2)] by (simp add: enable_writes_def tgt)
    moreover have "\<not> covers (view_layer s) x c"
      if "x \<in> fst ` set (snapshot_writes (o_nested_states target))" for x
      using that \<open>\<forall>x \<in> fst ` set (snapshot_writes (o_nested_states target)). \<not> covers (view_layer s') x c\<close>
      by (simp only: cov) blast
    ultimately have "exclude_of (view_layer ?s'') c = Some False"
      using res[OF that(2)] by (intro transition_holds) assumption+
    then show ?thesis by (simp only: v)
  qed
  have restores: "exclude_of (view_layer s') d = Some b'"
    if "bound_id target = Some c" "exclude_of (view_layer s') c \<noteq> None"
      "snapshot_writes (o_nested_states target) = W1 @ (d, b') # W2"
      "exclude_of (view_layer s') d \<noteq> None"
      "\<forall>x \<in> fst ` set W2. \<not> covers (view_layer s') x d"
    for c W1 d b' W2
  proof -
    have "enable_writes (view_layer s) (amarillo_outfits ?s'' ! ?k) =
            ((c, False) # W1) @ (d, b') # W2"
      using that(1,3) res[OF that(2)] by (simp add: enable_writes_def tgt)
    moreover have "\<not> covers (view_layer s) x d" if "x \<in> fst ` set W2" for x
      using that \<open>\<forall>x \<in> fst ` set W2. \<not> covers (view_layer s') x d\<close>
      by (simp only: cov) blast
    ultimately have "exclude_of (view_layer ?s'') d = Some b'"
      using res[OF that(4)] by (intro transition_holds) assumption+
    then show ?thesis by (simp only: v)
  qed
  show ?thesis
  proof (intro conjI ballI allI impI)
    show "r = FINISHED" by (rule r)
  next
    fix outfit d
    assume "outfit \<in> set (amarillo_outfits s')"
      and "bound_id outfit = Some d \<and> exclude_of (view_layer s') d \<noteq> None \<and>
           (\<forall>x \<in> fst ` set (enable_writes (view_layer s') target). \<not> covers (view_layer s') x d)"
    then show "exclude_of (view_layer s') d = Some True"
      using hides[of outfit d] by (elim conjE) assumption
  next
    fix c
    assume "bound_id target = Some c \<and> exclude_of (view_layer s') c \<noteq> None \<and>
            (\<forall>x \<in> fst ` set (snapshot_writes (o_nested_states target)).
                 \<not> covers (view_layer s') x c)"
    then show "exclude_of (view_layer s') c = Some False"
      using enables[of c] by (elim conjE) assumption
  next
    fix c W1 d b W2
    assume "bound_id target = Some c \<and> exclude_of (view_layer s') c \<noteq> None \<and>
              snapshot_writes (o_nested_states target) = W1 @ (d, b) # W2 \<and>
              exclude_of (view_layer s') d \<noteq> None \<and>
              (\<forall>x \<in> fst ` set W2. \<not> covers (view_layer s') x d)"
    then show "exclude_of (view_layer s') d = Some b"
      using restores[of c W1 d b W2] by (elim conjE) assumption
  qed
qed

theorem activation_flags_witness:
  "(0::int) \<le> 0 \<and> 0 < int (length (amarillo_outfits return_scene)) \<and>
   (\<exists>s'. quick_activate_execute return_scene 0 = Inr (FINISHED, s') \<and>
      exclude_of (view_layer s') 5 = Some True \<and>
      exclude_of (view_layer s') 1 = Some False \<and>
      exclude_of (view_layer s') 2 = Some True \<and>
      exclude_of (view_layer s') 3 = Some False)"
proof -
  let ?x = "transition return_scene (previous_outfit return_scene) 0"
  let ?s' = "?x\<lparr>amarillo_active_outfit_index := 0\<rparr>"
  let ?T = "demo_casual\<lparr>o_nested_states := body_snapshot\<rparr>"
  have h: "(0::int) \<le> 0" "0 < int (length (amarillo_outfits return_scene))"
    by (simp_all add: return_scene_def)
  have run: "quick_activate_execute return_scene 0 = Inr (FINISHED, ?s')"
    by (rule quick_activate_execute_transition) (simp_all add: return_scene_def subscript_def)
  have outfits: "amarillo_outfits ?s' = [?T, demo_formal_outfit]"
    by (simp add: transition_outfits previous_outfit_def return_scene_def subscript_def
        store_nested_states_def Let_def demo_formal_outfit_def demo_formal_def)
  have target: "?T = amarillo_outfits ?s' ! nat 0"
    by (simp only: outfits) simp
  have vl: "view_layer ?s' = view_layer ?x" by simp
  have before: "exclude_of (view_layer return_scene) d \<noteq> None" if "d \<in> {1, 2, 3, 5}" for d
    using that by (auto simp: return_scene_def exclude_of_def)
  have present: "exclude_of (view_layer ?s') d \<noteq> None" if "d \<in> {1, 2, 3, 5}" for d
    unfolding vl using before[OF that] by (simp only: transition_resolvable not_False_eq_True)
  have cov: "covers (view_layer ?s') x d = covers (view_layer return_scene) x d" for x d
    unfolding vl by (rule transition_covers)
  have b: "bound_id ?T = Some 1" "bound_id demo_formal_outfit = Some 5"
    by (simp_all add: bound_id_def demo_casual_def demo_formal_outfit_def demo_body_def
        demo_formal_def)
  have sw: "snapshot_writes (o_nested_states ?T) = [(2, True), (3, False), (4, False)]"
    by (simp add: body_snapshot_def)
  have sw2: "snapshot_writes (o_nested_states ?T) = [] @ (2, True) # [(3, False), (4, False)]"
    and sw3: "snapshot_writes (o_nested_states ?T) = [(2, True)] @ (3, False) # [(4, False)]"
    by (simp_all only: sw append.simps)
  have p1: "exclude_of (view_layer ?s') 1 \<noteq> None" by (rule present) simp
  have en: "enable_writes (view_layer ?s') ?T = (1, False) # [(2, True), (3, False), (4, False)]"
    by (simp only: enable_writes_def b(1) sw option.case p1 if_False)
  have apart: "\<not> covers (view_layer return_scene) x d"
    if "(x, d) \<in> {(1, 5), (2, 5), (3, 5), (4, 5), (2, 1), (3, 1), (4, 1), (3, 2), (4, 2), (4, 3)}"
    for x d
    using that
    by (auto simp: covers_def below_ids_def below_node_def exclude_of_def return_scene_def)
  have c5: "\<forall>x \<in> fst ` set (enable_writes (view_layer ?s') ?T). \<not> covers (view_layer ?s') x 5"
    by (simp only: en cov) (simp add: apart)
  have c1: "\<forall>x \<in> fst ` set (snapshot_writes (o_nested_states ?T)). \<not> covers (view_layer ?s') x 1"
    by (simp only: sw cov) (simp add: apart)
  have c2: "\<forall>x \<in> fst ` set [(3, False), (4, False)]. \<not> covers (view_layer ?s') x 2"
    by (simp only: cov) (simp add: apart)
  have c3: "\<forall>x \<in> fst ` set [(4, False)]. \<not> covers (view_layer ?s') x 3"
    by (simp only: cov) (simp add: apart)
  note facts = activation_flags[OF h run target]
  have formal: "demo_formal_outfit \<in> set (amarillo_outfits ?s')" by (simp only: outfits) simp
  have "exclude_of (view_layer ?s') 5 = Some True"
    by (rule facts[THEN conjunct2, THEN conjunct1, rule_format, OF formal])
       (intro conjI b(2) present c5, simp)
  moreover have "exclude_of (view_layer ?s') 1 = Some False"
    by (rule facts[THEN conjunct2, THEN conjunct2, THEN conjunct1, rule_format])
       (intro conjI b(1) present c1, simp)
  moreover have "exclude_of (view_layer ?s') 2 = Some True"
    by (rule facts[THEN conjunct2, THEN conjunct2, THEN conjunct2, rule_format,
          of 1 "[]" 2 True "[(3, False), (4, False)]"])
       (intro conjI b(1) present sw2 c2, simp_all)
  moreover have "exclude_of (view_layer ?s') 3 = Some False"
    by (rule facts[THEN conjunct2, THEN conjunct2, THEN conjunct2, rule_format,
          of 1 "[(2, True)]" 3 False "[(4, False)]"])
       (intro conjI b(1) present sw3 c3, simp_all)
  ultimately show ?thesis using h run by (intro conjI exI[of _ ?s']) assumption+
qed

section \<open>Idempotence\<close>

text \<open>
  C8 as stated fails. Quick-activate restores the snapshot the target holds, and that
  snapshot is taken anew only when the target is the outfit being left. In
  \<open>rebound_scene\<close> \<open>Formal\<close> is active and \<open>Casual\<close>, bound anew to collection 2, still
  holds a snapshot that records collection 2 as excluded: quick-activating \<open>Casual\<close>
  leaves collection 2 excluded, and activating \<open>Casual\<close> again, through either operator,
  takes an empty snapshot first and leaves collection 2 visible.
\<close>

theorem activation_idempotent_counterexample:
  "amarillo_active_outfit_index rebound_scene = 1 \<and>
   bound_id (amarillo_outfits rebound_scene ! 0) = Some 2 \<and>
   snapshot_writes (o_nested_states (amarillo_outfits rebound_scene ! 0)) = [(2, True)] \<and>
   exclude_after (quick_activate_execute rebound_scene 0) 2 = Some True \<and>
   exclude_after (then_quick_activate (quick_activate_execute rebound_scene 0) 0) 2 = Some False \<and>
   exclude_after (then_activate (quick_activate_execute rebound_scene 0)) 2 = Some False"
  by (simp add: run_defs scene_defs rebound_scene_def then_quick_activate_def then_activate_def
      exclude_after_def exclude_of_def bound_id_def)

text \<open>
  C8, amended. Let outfit \<open>T\<close> be activated, by quick-activate or by the activate-selected
  operator, in a view layer in which every collection has one node and the nodes of the
  collection bound to \<open>T\<close> and of the collections nested in it are nested as in the
  hierarchy, and let \<open>T\<close> either be the active outfit already or hold a snapshot that
  records only collections nested in its bound collection. Then activating \<open>T\<close> again,
  through either operator, finishes and leaves the exclusion flag of every collection
  and the whole object store, hence every live shape-key weight, as they were before the
  second activation.
\<close>

theorem activation_idempotent:
  assumes first: "quick_activate_execute s outfit_index = Inr (FINISHED, s1) \<or>
                  (activate_execute s = Inr (FINISHED, s1) \<and>
                   outfit_index = amarillo_active_outfit_index s)"
    and target: "subscript (amarillo_outfits s) outfit_index = Some k"
    and unique: "distinct (layer_ids (view_layer s))"
    and nested: "\<forall>c. o_collection (amarillo_outfits s ! k) = Some c \<longrightarrow>
                     nested_as_hierarchy (view_layer s) c"
    and within: "amarillo_active_outfit_index s = outfit_index \<or>
                 snapshot_within (amarillo_outfits s ! k)"
  shows "\<exists>s2. quick_activate_execute s1 outfit_index = Inr (FINISHED, s2) \<and>
              activate_execute s1 = Inr (FINISHED, s2) \<and>
              (\<forall>m. exclude_of (view_layer s2) m = exclude_of (view_layer s1) m) \<and>
              objects s2 = objects s1"
proof -
  let ?p = "previous_outfit s"
  let ?x1 = "transition s ?p k"
  let ?x2 = "transition ?x1 (Some k) k"
  have k: "k < length (amarillo_outfits s)" using target by (rule subscript_bound)
  have below: "outfit_index < int (length (amarillo_outfits s))"
    using target by (auto simp: subscript_def Let_def split: if_splits)
  have s1: "s1 = ?x1\<lparr>amarillo_active_outfit_index := outfit_index\<rparr>"
  proof -
    from first show ?thesis
    proof
      assume "quick_activate_execute s outfit_index = Inr (FINISHED, s1)"
      from quick_activate_finished[OF this] target show ?thesis by auto
    next
      assume a: "activate_execute s = Inr (FINISHED, s1) \<and>
                 outfit_index = amarillo_active_outfit_index s"
      with activate_finished[of s FINISHED s1] target
      have "?p = Some k" "s1 = transition s (Some k) k" by auto
      moreover have "amarillo_active_outfit_index (transition s (Some k) k) = outfit_index"
        using a by simp
      ultimately show ?thesis by simp
    qed
  qed
  have prev: "amarillo_active_outfit_index s = outfit_index \<Longrightarrow> ?p = Some k"
    using target below by (simp add: previous_outfit_def)
  from within prev have within': "?p = Some k \<or> snapshot_within (amarillo_outfits s ! k)"
    by blast
  have sub1: "subscript (amarillo_outfits s1) outfit_index = Some k"
    using target by (simp add: s1 subscript_def)
  have idx1: "amarillo_active_outfit_index s1 = outfit_index" by (simp add: s1)
  have prev1: "previous_outfit s1 = Some k"
    using sub1 below by (simp add: previous_outfit_def idx1 s1)
  have t1: "transition s1 (Some k) k = ?x2\<lparr>amarillo_active_outfit_index := outfit_index\<rparr>"
    by (simp add: s1 transition_index)
  have run_a: "activate_execute s1 = Inr (FINISHED, transition s1 (Some k) k)"
    using sub1 by (simp add: activate_execute_transition idx1)
  have low: "- int (length (amarillo_outfits s1)) \<le> amarillo_active_outfit_index s1"
    using sub1 by (auto simp: idx1 subscript_def Let_def split: if_splits)
  have below1: "outfit_index < int (length (amarillo_outfits s1))" using below by (simp add: s1)
  have "quick_activate_execute s1 outfit_index =
          Inr (FINISHED, (transition s1 (previous_outfit s1) k)
                            \<lparr>amarillo_active_outfit_index := outfit_index\<rparr>)"
    using sub1 below1 low by (rule quick_activate_execute_transition)
  then have run_q: "quick_activate_execute s1 outfit_index = Inr (FINISHED, transition s1 (Some k) k)"
    by (simp add: prev1 t1)
  have flags: "exclude_of (view_layer (transition s1 (Some k) k)) m = exclude_of (view_layer s1) m"
    for m
    using reactivate_flags[OF k unique nested within', of m] by (simp add: s1 transition_index)
  have weights: "objects (transition s1 (Some k) k) = objects s1"
    using reapply_objects[of s ?p k] by (simp add: s1 transition_index)
  from run_q run_a flags weights show ?thesis by blast
qed

theorem activation_idempotent_witness:
  "subscript (amarillo_outfits return_scene) 0 = Some 0 \<and>
   distinct (layer_ids (view_layer return_scene)) \<and>
   nested_as_hierarchy (view_layer return_scene) demo_body \<and>
   amarillo_active_outfit_index return_scene = 1 \<and>
   snapshot_within (amarillo_outfits return_scene ! 0) \<and>
   (\<exists>s1 s2. quick_activate_execute return_scene 0 = Inr (FINISHED, s1) \<and>
       quick_activate_execute s1 0 = Inr (FINISHED, s2) \<and>
       activate_execute s1 = Inr (FINISHED, s2) \<and>
       exclude_of (view_layer s1) 2 = Some True \<and>
       exclude_of (view_layer s2) 2 = Some True \<and>
       objects s2 = objects s1)"
proof -
  let ?s1 = "(transition return_scene (previous_outfit return_scene) 0)
               \<lparr>amarillo_active_outfit_index := 0\<rparr>"
  have target: "subscript (amarillo_outfits return_scene) 0 = Some 0"
    by (simp add: return_scene_def subscript_def)
  have unique: "distinct (layer_ids (view_layer return_scene))"
    by (simp add: return_scene_def)
  have c: "o_collection (amarillo_outfits return_scene ! 0) = Some demo_body"
    by (simp add: return_scene_def demo_casual_def)
  have h: "nested_as_hierarchy (view_layer return_scene) demo_body"
    by (simp add: nested_as_hierarchy_def return_scene_def demo_body_def)
  have nested: "\<forall>c. o_collection (amarillo_outfits return_scene ! 0) = Some c \<longrightarrow>
                     nested_as_hierarchy (view_layer return_scene) c"
    using c h by simp
  have idx: "amarillo_active_outfit_index return_scene = 1" by (simp add: return_scene_def)
  have within: "snapshot_within (amarillo_outfits return_scene ! 0)"
    by (simp add: snapshot_within_def return_scene_def demo_casual_def demo_body_def
        body_snapshot_def)
  have run: "quick_activate_execute return_scene 0 = Inr (FINISHED, ?s1)"
    by (rule quick_activate_execute_transition) (simp_all add: return_scene_def subscript_def)
  have e1: "exclude_of (view_layer ?s1) 2 = Some True"
    by (simp add: transition_def previous_outfit_def run_defs scene_defs return_scene_def
        exclude_of_def)
  from activation_idempotent[OF disjI1[OF run] target unique nested disjI2[OF within]]
  obtain s2 where "quick_activate_execute ?s1 0 = Inr (FINISHED, s2)"
    "activate_execute ?s1 = Inr (FINISHED, s2)"
    "\<forall>m. exclude_of (view_layer s2) m = exclude_of (view_layer ?s1) m"
    "objects s2 = objects ?s1" by blast
  with e1 target unique h idx within run show ?thesis by (intro conjI exI[of _ ?s1] exI[of _ s2]) simp_all
qed

section \<open>Leaving an outfit and coming back\<close>








end
